theory Spec2Isabelle
  imports Complex_Main "HOL-Library.Log_Nat" "HOL-Library.Sublist"
begin

section \<open>Python values\<close>

text \<open>
  A Python \<open>float\<close> is an IEEE binary64 value: a finite double is the rational number it
  denotes, and there are the two infinities and NaN. The sign of zero is not represented
  (\<open>Finite 0\<close> stands for both \<open>0.0\<close> and \<open>-0.0\<close>); no function below distinguishes them.
\<close>

datatype pyfloat = Finite rat | PosInf | NegInf | NaN

text \<open>
  The values a parsed YAML document or a JSON report is made of (the timestamps, byte
  strings and sets that YAML also has are left out). A \<open>dict\<close> is an association list in
  insertion order; its keys are looked up by structural equality, which is Python's
  \<open>==\<close> for the string keys this program uses.
\<close>

datatype pyval =
    PNone
  | PBool bool
  | PInt int
  | PFloat pyfloat
  | PStr string
  | PList "pyval list"
  | PDict "(pyval \<times> pyval) list"

text \<open>
  Exceptions. The messages of the \<open>ValueError\<close>s the program raises are kept as a tag and
  the value interpolated into the message.
\<close>

datatype value_error =
    ConfigurationEmpty
  | MissingConfigField string
  | InvalidAuthVersion pyval
  | ParseFailure string
  | FloatNaNToInteger

datatype py_error =
    ValueError value_error
  | TypeError
  | AttributeError
  | OverflowError
  | ZeroDivisionError
  | FileNotFoundError
  | OSError

text \<open>Truth value of an object, as \<open>not x\<close> and \<open>if x\<close> test it.\<close>

fun py_truthy :: "pyval \<Rightarrow> bool" where
  "py_truthy PNone = False"
| "py_truthy (PBool b) = b"
| "py_truthy (PInt n) = (n \<noteq> 0)"
| "py_truthy (PFloat f) = (f \<noteq> Finite 0)"
| "py_truthy (PStr s) = (s \<noteq> [])"
| "py_truthy (PList l) = (l \<noteq> [])"
| "py_truthy (PDict d) = (d \<noteq> [])"

text \<open>
  \<open>field in container\<close> for a string \<open>field\<close>: key membership in a dict, element
  membership in a list, substring test in a string, \<open>TypeError\<close> for a value that is
  not a container.
\<close>

fun str_in :: "string \<Rightarrow> pyval \<Rightarrow> py_error + bool" where
  "str_in f (PDict d) = Inr (PStr f \<in> fst ` set d)"
| "str_in f (PList l) = Inr (PStr f \<in> set l)"
| "str_in f (PStr t) = Inr (sublist f t)"
| "str_in f PNone = Inl TypeError"
| "str_in f (PBool b) = Inl TypeError"
| "str_in f (PInt n) = Inl TypeError"
| "str_in f (PFloat x) = Inl TypeError"

text \<open>\<open>obj.get(key, default)\<close>: only a dict has the method.\<close>

fun py_get :: "pyval \<Rightarrow> string \<Rightarrow> pyval \<Rightarrow> py_error + pyval" where
  "py_get (PDict d) k dflt = Inr (case map_of d (PStr k) of Some v \<Rightarrow> v | None \<Rightarrow> dflt)"
| "py_get PNone k dflt = Inl AttributeError"
| "py_get (PBool b) k dflt = Inl AttributeError"
| "py_get (PInt n) k dflt = Inl AttributeError"
| "py_get (PFloat x) k dflt = Inl AttributeError"
| "py_get (PStr s) k dflt = Inl AttributeError"
| "py_get (PList l) k dflt = Inl AttributeError"


section \<open>Python floats\<close>

subsection \<open>Rounding to the nearest double\<close>

text \<open>
  \<open>pow2 e\<close> is \<open>2\<^sup>e\<close> for an integer \<open>e\<close>, and \<open>ilog2 x\<close> is the binary exponent of a
  positive rational: \<open>pow2 (ilog2 x) \<le> x < pow2 (ilog2 x + 1)\<close> (lemma \<open>ilog2_bounds\<close>).
\<close>

definition pow2 :: "int \<Rightarrow> rat" where
  "pow2 e = (if 0 \<le> e then 2 ^ nat e else 1 / 2 ^ nat (- e))"

definition ilog2 :: "rat \<Rightarrow> int" where
  "ilog2 x = (if 1 \<le> x then bitlen \<lfloor>x\<rfloor> - 1 else - bitlen (\<lceil>1 / x\<rceil> - 1))"

text \<open>Rounding to the nearest integer, a tie to the even one.\<close>

definition round_half_even :: "rat \<Rightarrow> int" where
  "round_half_even x =
     (let f = \<lfloor>x\<rfloor>; r = x - of_int f in
      if r < 1 / 2 then f
      else if 1 / 2 < r then f + 1
      else if even f then f else f + 1)"

text \<open>
  A binary64 number has 53 significant bits and a least exponent of \<open>-1022\<close> (below it
  the numbers are subnormal): around \<open>x\<close> the doubles are the multiples of
  \<open>quantum x\<close>. \<open>round_double\<close> is IEEE round-to-nearest, ties-to-even, with no upper
  limit on the exponent; \<open>fl\<close> adds the overflow to an infinity once the rounded value
  reaches \<open>pow2 1024\<close>.
\<close>

definition expo :: "rat \<Rightarrow> int" where
  "expo x = max (ilog2 \<bar>x\<bar>) (- 1022)"

definition quantum :: "rat \<Rightarrow> rat" where
  "quantum x = pow2 (expo x - 52)"

definition round_double :: "rat \<Rightarrow> rat" where
  "round_double x = of_int (round_half_even (x / quantum x)) * quantum x"

definition fl :: "rat \<Rightarrow> pyfloat" where
  "fl x = (let y = round_double x in
           if 1024 \<le> ilog2 \<bar>y\<bar> then (if 0 < x then PosInf else NegInf) else Finite y)"

text \<open>
  \<open>float_limit\<close> is the midpoint between the largest double and \<open>pow2 1024\<close>: a value
  rounds to a finite double exactly when its absolute value is below it (lemmas
  \<open>fl_below_limit\<close>, \<open>fl_at_limit\<close>).
\<close>

definition float_limit :: rat where
  "float_limit = pow2 1024 - pow2 970"

subsection \<open>Operations of \<open>float\<close> and \<open>int\<close>\<close>

text \<open>\<open>a / b\<close> on two \<open>int\<close>s: the correctly rounded quotient.\<close>

definition py_int_truediv :: "int \<Rightarrow> int \<Rightarrow> py_error + pyfloat" where
  "py_int_truediv a b =
     (if b = 0 then Inl ZeroDivisionError
      else case fl (of_int a / of_int b) of
             Finite q \<Rightarrow> Inr (Finite q)
           | PosInf \<Rightarrow> Inl OverflowError
           | NegInf \<Rightarrow> Inl OverflowError
           | NaN \<Rightarrow> Inl OverflowError)"

fun py_float_mul :: "pyfloat \<Rightarrow> pyfloat \<Rightarrow> pyfloat" where
  "py_float_mul NaN y = NaN"
| "py_float_mul x NaN = NaN"
| "py_float_mul (Finite a) (Finite b) = fl (a * b)"
| "py_float_mul (Finite a) PosInf = (if a = 0 then NaN else if 0 < a then PosInf else NegInf)"
| "py_float_mul (Finite a) NegInf = (if a = 0 then NaN else if 0 < a then NegInf else PosInf)"
| "py_float_mul PosInf (Finite b) = (if b = 0 then NaN else if 0 < b then PosInf else NegInf)"
| "py_float_mul NegInf (Finite b) = (if b = 0 then NaN else if 0 < b then NegInf else PosInf)"
| "py_float_mul PosInf PosInf = PosInf"
| "py_float_mul PosInf NegInf = NegInf"
| "py_float_mul NegInf PosInf = NegInf"
| "py_float_mul NegInf NegInf = PosInf"

text \<open>\<open>x / y\<close> on floats raises for a zero divisor, whatever \<open>x\<close> is.\<close>

fun py_float_div :: "pyfloat \<Rightarrow> pyfloat \<Rightarrow> py_error + pyfloat" where
  "py_float_div x (Finite b) =
     (if b = 0 then Inl ZeroDivisionError
      else case x of
             Finite a \<Rightarrow> Inr (fl (a / b))
           | PosInf \<Rightarrow> Inr (if 0 < b then PosInf else NegInf)
           | NegInf \<Rightarrow> Inr (if 0 < b then NegInf else PosInf)
           | NaN \<Rightarrow> Inr NaN)"
| "py_float_div x NaN = Inr NaN"
| "py_float_div (Finite a) PosInf = Inr (Finite 0)"
| "py_float_div (Finite a) NegInf = Inr (Finite 0)"
| "py_float_div x PosInf = Inr NaN"
| "py_float_div x NegInf = Inr NaN"

fun py_float_add :: "pyfloat \<Rightarrow> pyfloat \<Rightarrow> pyfloat" where
  "py_float_add NaN y = NaN"
| "py_float_add x NaN = NaN"
| "py_float_add (Finite a) (Finite b) = fl (a + b)"
| "py_float_add (Finite a) y = y"
| "py_float_add x (Finite b) = x"
| "py_float_add PosInf PosInf = PosInf"
| "py_float_add NegInf NegInf = NegInf"
| "py_float_add PosInf NegInf = NaN"
| "py_float_add NegInf PosInf = NaN"

text \<open>Comparisons: every comparison with NaN is false.\<close>

fun float_less :: "pyfloat \<Rightarrow> pyfloat \<Rightarrow> bool" where
  "float_less NaN y = False"
| "float_less x NaN = False"
| "float_less (Finite a) (Finite b) = (a < b)"
| "float_less x NegInf = False"
| "float_less PosInf y = False"
| "float_less (Finite a) PosInf = True"
| "float_less NegInf y = True"

fun float_le :: "pyfloat \<Rightarrow> pyfloat \<Rightarrow> bool" where
  "float_le NaN y = False"
| "float_le x NaN = False"
| "float_le (Finite a) (Finite b) = (a \<le> b)"
| "float_le NegInf y = True"
| "float_le x PosInf = True"
| "float_le x NegInf = False"
| "float_le PosInf y = False"

definition float_ge :: "pyfloat \<Rightarrow> pyfloat \<Rightarrow> bool" where
  "float_ge x y = float_le y x"

text \<open>
  The builtin \<open>min(a, b)\<close>: it keeps the first argument unless the second is less than
  it (so a NaN in first place is returned).
\<close>

definition py_min :: "pyfloat \<Rightarrow> pyfloat \<Rightarrow> pyfloat" where
  "py_min a b = (if float_less b a then b else a)"

text \<open>\<open>int(x)\<close> truncates toward zero, and raises for NaN and the infinities.\<close>

definition truncate_rat :: "rat \<Rightarrow> int" where
  "truncate_rat x = (if 0 \<le> x then \<lfloor>x\<rfloor> else \<lceil>x\<rceil>)"

fun py_int_of_float :: "pyfloat \<Rightarrow> py_error + int" where
  "py_int_of_float (Finite x) = Inr (truncate_rat x)"
| "py_int_of_float NaN = Inl (ValueError FloatNaNToInteger)"
| "py_int_of_float PosInf = Inl OverflowError"
| "py_int_of_float NegInf = Inl OverflowError"

text \<open>
  \<open>round(x, ndigits)\<close> for \<open>ndigits \<ge> 0\<close> (CPython's \<open>double_round\<close> on a build with
  correctly rounded string conversion, as every mainstream platform has): the exact
  value of \<open>x\<close> is rounded half-even to \<open>ndigits\<close> decimal places and the decimal is
  converted to the nearest double. NaN and the infinities round to themselves, and so
  does every \<open>x\<close> when \<open>ndigits\<close> is above 323.
\<close>

fun py_round :: "pyfloat \<Rightarrow> nat \<Rightarrow> py_error + pyfloat" where
  "py_round (Finite x) ndigits =
     (if 323 < ndigits then Inr (Finite x)
      else case fl (of_int (round_half_even (x * 10 ^ ndigits)) / 10 ^ ndigits) of
             Finite r \<Rightarrow> Inr (Finite r)
           | PosInf \<Rightarrow> Inl OverflowError
           | NegInf \<Rightarrow> Inl OverflowError
           | NaN \<Rightarrow> Inl OverflowError)"
| "py_round NaN ndigits = Inr NaN"
| "py_round PosInf ndigits = Inr PosInf"
| "py_round NegInf ndigits = Inr NegInf"

subsection \<open>Conversion to text\<close>

text \<open>\<open>str(n)\<close> for an \<open>int\<close>.\<close>

definition digit_char :: "nat \<Rightarrow> char" where
  "digit_char d = ''0123456789'' ! d"

function nat_digits :: "nat \<Rightarrow> string" where
  "nat_digits n =
     (if n < 10 then [digit_char n] else nat_digits (n div 10) @ [digit_char (n mod 10)])"
  by pat_completeness auto
termination
  by (relation "measure (\<lambda>n. n)") auto

definition py_str_int :: "int \<Rightarrow> string" where
  "py_str_int i = (if i < 0 then CHR ''-'' # nat_digits (nat (- i)) else nat_digits (nat i))"

text \<open>
  \<open>f"{x:.1f}"\<close>: the exact value of \<open>x\<close> rounded half-even to one decimal place. (The text
  \<open>-0.0\<close> of the negative zero is not represented.)
\<close>

fun py_format_1f :: "pyfloat \<Rightarrow> string" where
  "py_format_1f (Finite x) =
     (let n = nat (round_half_even (\<bar>x\<bar> * 10))
      in (if x < 0 then ''-'' else []) @ nat_digits (n div 10) @ ''.'' @ nat_digits (n mod 10))"
| "py_format_1f NaN = ''nan''"
| "py_format_1f PosInf = ''inf''"
| "py_format_1f NegInf = ''-inf''"


section \<open>data.py: metric derivation\<close>

subsection \<open>\<open>calculate_utilization_pct\<close>\<close>

definition calculate_utilization_pct :: "int \<Rightarrow> int \<Rightarrow> py_error + pyfloat" where
  "calculate_utilization_pct protected_vms entitled_vms =
     (if entitled_vms \<le> 0 then Inr (Finite 0)
      else case py_int_truediv protected_vms entitled_vms of
             Inl e \<Rightarrow> Inl e
           | Inr q \<Rightarrow> py_round (py_float_mul q (Finite 100)) 2)"

subsection \<open>\<open>calculate_risk_score\<close>\<close>

definition expiry_score :: "int \<Rightarrow> int" where
  "expiry_score days_to_expiry =
     (if days_to_expiry \<le> 30 then 50
      else if days_to_expiry \<le> 90 then 30
      else if days_to_expiry \<le> 365 then 15
      else 5)"

definition calculate_risk_score :: "pyfloat \<Rightarrow> int \<Rightarrow> py_error + int" where
  "calculate_risk_score utilization_pct days_to_expiry =
     (case py_float_div utilization_pct (Finite 100) of
        Inl e \<Rightarrow> Inl e
      | Inr ratio \<Rightarrow>
         (let util_score = py_float_mul (py_min ratio (Finite 1)) (Finite 50)
          in case py_int_of_float
                    (py_float_add util_score (Finite (of_int (expiry_score days_to_expiry)))) of
               Inl e \<Rightarrow> Inl e
             | Inr score \<Rightarrow> Inr (min score 100)))"

subsection \<open>The risk score as the specification words it\<close>

text \<open>
  The formula of the specification,
  \<open>floor(min(utilization_pct,100)/100*50 + expiry_component)\<close> clamped to 100, evaluated in
  float arithmetic like the code it describes. The conversion to an integer is a
  parameter, so that the formula can be read with \<open>math.floor\<close> (as it is written) and
  with \<open>int\<close> (as the code has it). \<open>math.floor\<close> raises for NaN and the infinities as
  \<open>int\<close> does.
\<close>

fun py_floor :: "pyfloat \<Rightarrow> py_error + int" where
  "py_floor (Finite x) = Inr \<lfloor>x\<rfloor>"
| "py_floor NaN = Inl (ValueError FloatNaNToInteger)"
| "py_floor PosInf = Inl OverflowError"
| "py_floor NegInf = Inl OverflowError"

definition expiry_component :: "int \<Rightarrow> int" where
  "expiry_component days_to_expiry =
     (if days_to_expiry \<le> 30 then 50
      else if days_to_expiry \<le> 90 then 30
      else if days_to_expiry \<le> 365 then 15
      else 5)"

definition spec_risk_score ::
  "(pyfloat \<Rightarrow> py_error + int) \<Rightarrow> pyfloat \<Rightarrow> int \<Rightarrow> py_error + int" where
  "spec_risk_score to_int utilization_pct days_to_expiry =
     (case py_float_div (py_min utilization_pct (Finite 100)) (Finite 100) of
        Inl e \<Rightarrow> Inl e
      | Inr ratio \<Rightarrow>
         (case to_int (py_float_add (py_float_mul ratio (Finite 50))
                         (Finite (of_int (expiry_component days_to_expiry)))) of
            Inl e \<Rightarrow> Inl e
          | Inr score \<Rightarrow> Inr (min score 100)))"

subsection \<open>\<open>generate_alerts\<close>\<close>

record alert =
  severity :: string
  message :: string
  recommendation :: string

definition default_thresholds :: "string \<rightharpoonup> pyfloat" where
  "default_thresholds =
     [''utilization_warn'' \<mapsto> fl (80 / 100), ''utilization_crit'' \<mapsto> fl (95 / 100)]"

definition generate_alerts ::
  "pyfloat \<Rightarrow> int \<Rightarrow> (string \<rightharpoonup> pyfloat) option \<Rightarrow> alert list" where
  "generate_alerts utilization_pct days_to_expiry alert_thresholds_arg =
     (let alert_thresholds =
            (case alert_thresholds_arg of None \<Rightarrow> default_thresholds | Some t \<Rightarrow> t);
          alerts0 = [];
          crit_threshold =
            py_float_mul (case alert_thresholds ''utilization_crit'' of
                            None \<Rightarrow> fl (95 / 100) | Some v \<Rightarrow> v) (Finite 100);
          warn_threshold =
            py_float_mul (case alert_thresholds ''utilization_warn'' of
                            None \<Rightarrow> fl (80 / 100) | Some v \<Rightarrow> v) (Finite 100);
          alerts1 =
            (if float_ge utilization_pct crit_threshold then
               alerts0 @ [\<lparr>severity = ''critical'',
                  message = ''Utilization critical ('' @ py_format_1f utilization_pct @ ''%)'',
                  recommendation =
                    ''Immediate action required: Review licensing tier and add capacity''\<rparr>]
             else if float_ge utilization_pct warn_threshold then
               alerts0 @ [\<lparr>severity = ''warning'',
                  message = ''Utilization high ('' @ py_format_1f utilization_pct @ ''%)'',
                  recommendation = ''Audit and right-size your protected infrastructure''\<rparr>]
             else alerts0);
          alerts2 =
            (if days_to_expiry \<le> 30 then
               alerts1 @ [\<lparr>severity = ''warning'',
                  message = ''License expiring soon ('' @ py_str_int days_to_expiry @ '' days)'',
                  recommendation = ''License renewal action required''\<rparr>]
             else if days_to_expiry \<le> 90 then
               alerts1 @ [\<lparr>severity = ''info'',
                  message =
                    ''License expiration reminder ('' @ py_str_int days_to_expiry @ '' days)'',
                  recommendation = ''Plan license renewal''\<rparr>]
             else alerts1)
      in alerts2)"

text \<open>
  The two kinds of alert are told apart by their message: a utilization alert starts
  with \<open>Utilization\<close>, an expiry alert with \<open>License\<close>.
\<close>

definition utilization_alerts :: "alert list \<Rightarrow> alert list" where
  "utilization_alerts alerts = filter (\<lambda>a. prefix ''Utilization'' (message a)) alerts"

definition expiry_alerts :: "alert list \<Rightarrow> alert list" where
  "expiry_alerts alerts = filter (\<lambda>a. prefix ''License'' (message a)) alerts"

subsection \<open>\<open>forecast_runout_date\<close>\<close>

text \<open>
  The history is a dict from string to list of \<open>int\<close>, kept as an association list. The
  clock and the calendar are parameters: \<open>today\<close> is the day number that
  \<open>datetime.now()\<close> falls on and \<open>strftime d\<close> is the text \<open>%Y-%m-%d\<close> of day number \<open>d\<close>,
  so that \<open>strftime (today + 90)\<close> is
  \<open>(datetime.now() + timedelta(days=90)).strftime("%Y-%m-%d")\<close>.
\<close>

definition forecast_runout_date ::
  "int \<Rightarrow> (int \<Rightarrow> string) \<Rightarrow> (string \<times> int list) list \<Rightarrow> int \<Rightarrow> py_error + string" where
  "forecast_runout_date today strftime history entitled_vms =
     (if history = [] \<or> map_of history ''days_7'' = None
         \<or> length (the (map_of history ''days_7'')) < 3
      then Inr ''N/A''
      else
        (let trend = the (map_of history ''days_7'') in
         if length trend < 2 then Inr ''N/A''
         else
           (let delta = last trend - hd trend in
            if delta = 0 then Inr ''Stable''
            else if delta < 0 then Inr ''Stable (decreasing)''
            else
              (let days_in_period = 7 in
               case py_int_truediv delta days_in_period of
                 Inl e \<Rightarrow> Inl e
               | Inr rate \<Rightarrow>
                   if float_le rate (Finite 0) then Inr ''N/A''
                   else Inr (strftime (today + 90))))))"


section \<open>config.py: \<open>ConfigLoader\<close>\<close>

subsection \<open>\<open>_validate\<close>\<close>

definition required_fields :: "string list" where
  "required_fields = [''zvm_url'', ''auth'', ''verify_tls'', ''output_dir'']"

text \<open>The loop \<open>for field in required_fields\<close>: the first missing field raises.\<close>

fun check_required :: "string list \<Rightarrow> pyval \<Rightarrow> py_error + unit" where
  "check_required [] cfg = Inr ()"
| "check_required (f # fs) cfg =
     (case str_in f cfg of
        Inl e \<Rightarrow> Inl e
      | Inr present \<Rightarrow>
          if \<not> present then Inl (ValueError (MissingConfigField f))
          else check_required fs cfg)"

definition validate :: "pyval \<Rightarrow> py_error + unit" where
  "validate cfg =
     (if \<not> py_truthy cfg then Inl (ValueError ConfigurationEmpty)
      else case check_required required_fields cfg of
        Inl e \<Rightarrow> Inl e
      | Inr _ \<Rightarrow>
         (case py_get cfg ''auth'' (PDict []) of
            Inl e \<Rightarrow> Inl e
          | Inr auth \<Rightarrow>
             (case py_get auth ''version'' PNone of
                Inl e \<Rightarrow> Inl e
              | Inr auth_version \<Rightarrow>
                  if auth_version \<noteq> PStr ''10.x'' \<and> auth_version \<noteq> PStr ''pre-10''
                  then Inl (ValueError (InvalidAuthVersion auth_version))
                  else Inr ())))"


subsection \<open>\<open>_expand_env_vars\<close>\<close>

text \<open>
  \<open>replace_var\<close>: the value of the variable, or the token \<open>${NAME}\<close> again when
  \<open>os.environ.get\<close> returns \<open>None\<close>.
\<close>

definition replace_var :: "(string \<rightharpoonup> string) \<Rightarrow> string \<Rightarrow> string" where
  "replace_var env var_name =
     (case env var_name of
        None \<Rightarrow> ''${'' @ var_name @ ''}''
      | Some v \<Rightarrow> v)"

text \<open>
  \<open>re.sub(r'\$\{([^}]+)\}', replace_var, content)\<close>: the text is scanned from the left.
  Where \<open>${\<close> stands, the group \<open>[^}]+\<close> takes every character up to the next \<open>}\<close>;
  the pattern matches there when the group is not empty and the closing \<open>}\<close> exists. A match
  is replaced and the scan goes on behind it (the replacement is not scanned again);
  otherwise the character is copied and the scan goes on at the next one.
\<close>

function expand_env_vars :: "(string \<rightharpoonup> string) \<Rightarrow> string \<Rightarrow> string" where
  "expand_env_vars env [] = []"
| "expand_env_vars env (c # cs) =
     (if c = CHR ''$'' \<and> cs \<noteq> [] \<and> hd cs = CHR ''{'' then
        (let var_name = takeWhile (\<lambda>x. x \<noteq> CHR ''}'') (tl cs);
             rest = dropWhile (\<lambda>x. x \<noteq> CHR ''}'') (tl cs)
         in if var_name \<noteq> [] \<and> rest \<noteq> []
            then replace_var env var_name @ expand_env_vars env (tl rest)
            else c # expand_env_vars env cs)
      else c # expand_env_vars env cs)"
  by pat_completeness auto
termination
proof (relation "measure (\<lambda>(env, s). length s)")
  show "wf (measure (\<lambda>(env, s). length s))" by simp
next
  fix env :: "string \<rightharpoonup> string" and c :: char and cs var_name rest :: string
  assume "rest = dropWhile (\<lambda>x. x \<noteq> CHR ''}'') (tl cs)"
  moreover have "length (dropWhile (\<lambda>x. x \<noteq> CHR ''}'') (tl cs)) \<le> length cs"
    by (rule order_trans [OF length_dropWhile_le]) simp
  ultimately show "((env, tl rest), (env, c # cs)) \<in> measure (\<lambda>(env, s). length s)"
    by simp
qed simp_all

text \<open>
  The shape of a text with tokens, for stating what the expansion does. \<open>token n\<close> is
  the text \<open>${n}\<close>; a name is valid when it is not empty and holds no \<open>}\<close>. \<open>match_at s\<close>
  says that the pattern matches at the start of \<open>s\<close>, and \<open>has_token s\<close> that it matches
  somewhere in \<open>s\<close>. A text is \<open>inert\<close> when every \<open>${\<close> in it is followed, in it, by
  \<open>}\<close>: no match can start in such a text, whatever comes behind it. \<open>source_text\<close> lays
  out pieces of text, each followed by a token, and a last piece; \<open>expanded_text\<close> is the
  same layout with every token replaced by \<open>replace_var\<close>.
\<close>

definition token :: "string \<Rightarrow> string" where
  "token n = ''${'' @ n @ ''}''"

definition valid_name :: "string \<Rightarrow> bool" where
  "valid_name n = (n \<noteq> [] \<and> CHR ''}'' \<notin> set n)"

definition match_at :: "string \<Rightarrow> bool" where
  "match_at s =
     (case s of
        c # cs \<Rightarrow>
          c = CHR ''$'' \<and> cs \<noteq> [] \<and> hd cs = CHR ''{''
          \<and> takeWhile (\<lambda>x. x \<noteq> CHR ''}'') (tl cs) \<noteq> []
          \<and> dropWhile (\<lambda>x. x \<noteq> CHR ''}'') (tl cs) \<noteq> []
      | [] \<Rightarrow> False)"

fun has_token :: "string \<Rightarrow> bool" where
  "has_token [] = False"
| "has_token (c # cs) = (match_at (c # cs) \<or> has_token cs)"

fun inert :: "string \<Rightarrow> bool" where
  "inert (a # b # cs) =
     ((if a = CHR ''$'' \<and> b = CHR ''{'' then cs \<noteq> [] \<and> hd cs = CHR ''}'' else True)
      \<and> inert (b # cs))"
| "inert [a] = True"
| "inert [] = True"

fun source_text :: "(string \<times> string) list \<Rightarrow> string \<Rightarrow> string" where
  "source_text [] tail = tail"
| "source_text ((pre, n) # ps) tail = pre @ token n @ source_text ps tail"

fun expanded_text :: "(string \<rightharpoonup> string) \<Rightarrow> (string \<times> string) list \<Rightarrow> string \<Rightarrow> string" where
  "expanded_text env [] tail = tail"
| "expanded_text env ((pre, n) # ps) tail = pre @ replace_var env n @ expanded_text env ps tail"

subsection \<open>\<open>load\<close>\<close>

record config_loader =
  config :: pyval

text \<open>
  \<open>load\<close> reads the file, expands the variables, parses the text and validates the result.
  The readable files are a map from path to text. \<open>yaml.safe_load\<close> is a parameter: it
  returns the parsed value or the message of a \<open>YAMLError\<close>. \<open>self.config\<close> is assigned
  before \<open>_validate\<close> runs, and \<open>_validate\<close> reads it.
\<close>

definition load ::
  "(string \<Rightarrow> string + pyval) \<Rightarrow> (string \<rightharpoonup> string) \<Rightarrow> (string \<rightharpoonup> string) \<Rightarrow>
   config_loader \<Rightarrow> string \<Rightarrow> (py_error + pyval) \<times> config_loader" where
  "load safe_load files env self config_path =
     (case files config_path of
        None \<Rightarrow> (Inl FileNotFoundError, self)
      | Some content \<Rightarrow>
         (case safe_load (expand_env_vars env content) of
            Inl msg \<Rightarrow> (Inl (ValueError (ParseFailure msg)), self)
          | Inr cfg \<Rightarrow>
             (let self' = self\<lparr>config := cfg\<rparr> in
              case validate (config self') of
                Inl e \<Rightarrow> (Inl e, self')
              | Inr _ \<Rightarrow> (Inr (config self'), self'))))"


section \<open>output.py: \<open>ReportGenerator.generate_json\<close>\<close>

record report_generator =
  output_dir :: string

text \<open>
  The written reports are a map from path to the JSON document that \<open>json.dump\<close> wrote
  there (the document stands for its serialisation). The clock
  (\<open>datetime.now().isoformat()\<close>), the path join of \<open>pathlib\<close> and whether
  \<open>open(output_file, 'w')\<close> succeeds are parameters. The function returns the path and
  the reports with the new one written.
\<close>

definition generate_json ::
  "(string \<Rightarrow> string \<Rightarrow> string) \<Rightarrow> (string \<Rightarrow> bool) \<Rightarrow> string \<Rightarrow> (string \<rightharpoonup> pyval) \<Rightarrow>
   report_generator \<Rightarrow> pyval \<Rightarrow> pyval \<Rightarrow> pyval \<Rightarrow> pyval \<Rightarrow> bool \<Rightarrow> string \<Rightarrow> string \<Rightarrow>
   py_error + (string \<times> (string \<rightharpoonup> pyval))" where
  "generate_json joinpath can_open now_iso reports self license_data consumption_data metrics
       history tls_verified zerto_version tool_version =
     (let output_file = joinpath (output_dir self) ''licensing_utilization.json'';
          report = PDict
            [(PStr ''meta'', PDict
                [(PStr ''generated_at'', PStr (now_iso @ ''Z'')),
                 (PStr ''zvm_url'', PStr ''[REDACTED]''),
                 (PStr ''zerto_version'', PStr zerto_version),
                 (PStr ''tool_version'', PStr tool_version),
                 (PStr ''tls_verified'', PBool tls_verified)]),
             (PStr ''license'', license_data),
             (PStr ''consumption'', consumption_data),
             (PStr ''metrics'', metrics),
             (PStr ''history'', history)]
      in if can_open output_file
         then Inr (output_file, reports(output_file \<mapsto> report))
         else Inl OSError)"

text \<open>Reading a member of a JSON object, and the \<open>meta.zvm_url\<close> member of a written report.\<close>

fun json_member :: "pyval \<Rightarrow> string \<Rightarrow> pyval option" where
  "json_member (PDict d) k = map_of d (PStr k)"
| "json_member PNone k = None"
| "json_member (PBool b) k = None"
| "json_member (PInt n) k = None"
| "json_member (PFloat x) k = None"
| "json_member (PStr s) k = None"
| "json_member (PList l) k = None"

definition written_zvm_url :: "(string \<rightharpoonup> pyval) \<Rightarrow> string \<Rightarrow> pyval option" where
  "written_zvm_url reports path =
     (case reports path of
        None \<Rightarrow> None
      | Some doc \<Rightarrow>
          (case json_member doc ''meta'' of
             None \<Rightarrow> None
           | Some meta \<Rightarrow> json_member meta ''zvm_url''))"


section \<open>Properties of the float model\<close>

lemma pow2_pos [simp]: "0 < pow2 e"
  by (simp add: pow2_def)

lemma pow2_add: "pow2 (a + b) = pow2 a * pow2 b"
proof -
  have "pow2 e = 2 powi e" for e
    by (simp add: pow2_def power_int_def field_simps)
  then show ?thesis
    by (simp add: power_int_add)
qed

lemma pow2_powi: "pow2 e = 2 powi e"
  by (simp add: pow2_def power_int_def field_simps)

lemma pow2_mono: "a \<le> b \<Longrightarrow> pow2 a \<le> pow2 b"
  by (simp add: pow2_powi power_int_increasing)

lemma pow2_less_iff: "pow2 a < pow2 b \<longleftrightarrow> a < b"
proof
  assume "pow2 a < pow2 b"
  then show "a < b"
    using pow2_mono [of b a] by (cases "a < b") auto
next
  assume "a < b"
  then show "pow2 a < pow2 b"
    by (simp add: pow2_powi power_int_strict_increasing)
qed

lemma pow2_nat: "0 \<le> e \<Longrightarrow> pow2 e = 2 ^ nat e"
  by (simp add: pow2_def)

lemma ilog2_bounds:
  assumes "0 < x"
  shows "pow2 (ilog2 x) \<le> x \<and> x < pow2 (ilog2 x + 1)"
proof (cases "1 \<le> x")
  case True
  define n where "n = \<lfloor>x\<rfloor>"
  have n: "0 < n" using True by (simp add: n_def)
  have b: "1 \<le> bitlen n" using n by (simp add: bitlen_alt_def)
  from bitlen_bounds [OF n] have lo: "2 ^ nat (bitlen n - 1) \<le> n" and hi: "n < 2 ^ nat (bitlen n)"
    by auto
  have "rat_of_int (2 ^ nat (bitlen n - 1)) \<le> rat_of_int n"
    using lo by (simp only: of_int_le_iff)
  also have "\<dots> \<le> x" by (simp add: n_def)
  finally have 1: "pow2 (bitlen n - 1) \<le> x"
    using b by (simp add: pow2_nat)
  have "n + 1 \<le> 2 ^ nat (bitlen n)" using hi by simp
  then have "rat_of_int (n + 1) \<le> rat_of_int (2 ^ nat (bitlen n))"
    by (simp only: of_int_le_iff)
  moreover have "x < rat_of_int (n + 1)" using floor_correct [of x] by (simp add: n_def)
  ultimately have 2: "x < pow2 (bitlen n)"
    using b by (simp add: pow2_nat)
  show ?thesis using True 1 2 by (simp add: ilog2_def n_def)
next
  case False
  define m where "m = \<lceil>1 / x\<rceil>"
  define k where "k = bitlen (m - 1)"
  have y: "1 < 1 / x" using False assms by simp
  then have m: "2 \<le> m" unfolding m_def by (simp add: le_ceiling_iff)
  then have m1: "0 < m - 1" by simp
  have k: "1 \<le> k" using m1 by (simp add: k_def bitlen_alt_def)
  from bitlen_bounds [OF m1] have lo: "2 ^ nat (k - 1) \<le> m - 1" and hi: "m - 1 < 2 ^ nat k"
    by (auto simp: k_def)
  have "rat_of_int (m - 1) < 1 / x" unfolding m_def
    using ceiling_correct [of "1 / x"] by simp
  moreover have "rat_of_int (2 ^ nat (k - 1)) \<le> rat_of_int (m - 1)"
    using lo by (simp only: of_int_le_iff)
  moreover have "rat_of_int (2 ^ nat (k - 1)) = 2 ^ nat (k - 1)" by simp
  ultimately have a: "2 ^ nat (k - 1) < 1 / x" by linarith
  have "m \<le> 2 ^ nat k" using hi by simp
  then have "rat_of_int m \<le> rat_of_int (2 ^ nat k)" by (simp only: of_int_le_iff)
  moreover have "1 / x \<le> rat_of_int m" by (simp add: m_def)
  moreover have "rat_of_int (2 ^ nat k) = 2 ^ nat k" by simp
  ultimately have b: "1 / x \<le> 2 ^ nat k" by linarith
  have il: "ilog2 x = - k" using False by (simp add: ilog2_def k_def m_def)
  have p1: "pow2 (- k) = 1 / 2 ^ nat k" using k by (simp add: pow2_def)
  have p2: "pow2 (1 - k) = 1 / 2 ^ nat (k - 1)" using k
    by (auto simp add: pow2_def)
  have "1 / 2 ^ nat k \<le> x" using b assms by (simp add: field_simps)
  moreover have "x < 1 / 2 ^ nat (k - 1)" using a assms by (simp add: field_simps)
  ultimately show ?thesis by (simp add: il p1 p2)
qed


lemma rhe_of_int [simp]: "round_half_even (of_int n) = n"
  by (simp add: round_half_even_def)

lemma rhe_lower: "\<lfloor>x\<rfloor> \<le> round_half_even x"
  by (simp add: round_half_even_def Let_def)

lemma rhe_upper: "round_half_even x \<le> \<lfloor>x\<rfloor> + 1"
  by (simp add: round_half_even_def Let_def)

lemma rhe_mono:
  assumes "x \<le> y"
  shows "round_half_even x \<le> round_half_even y"
proof (cases "\<lfloor>x\<rfloor> = \<lfloor>y\<rfloor>")
  case True
  have "x - of_int \<lfloor>x\<rfloor> \<le> y - of_int \<lfloor>x\<rfloor>" using assms by simp
  then show ?thesis
    unfolding round_half_even_def Let_def True [symmetric]
    by (auto split: if_splits)
next
  case False
  have "\<lfloor>x\<rfloor> \<le> \<lfloor>y\<rfloor>" using assms by (rule floor_mono)
  with False have "\<lfloor>x\<rfloor> + 1 \<le> \<lfloor>y\<rfloor>" by simp
  with rhe_upper [of x] rhe_lower [of y] show ?thesis by linarith
qed

lemma rhe_error: "\<bar>of_int (round_half_even x) - x\<bar> \<le> 1 / 2"
proof -
  define f where "f = \<lfloor>x\<rfloor>"
  define r where "r = x - of_int f"
  have r: "0 \<le> r" "r < 1"
    using floor_correct [of x] by (simp_all add: r_def f_def)
  have x: "x = of_int f + r"
    by (simp add: r_def)
  have "round_half_even x =
      (if r < 1 / 2 then f else if 1 / 2 < r then f + 1 else if even f then f else f + 1)"
    by (simp add: round_half_even_def Let_def f_def r_def)
  then show ?thesis
    using r by (auto simp: x abs_if)
qed

lemma rhe_minus: "round_half_even (- x) = - round_half_even x"
proof (cases "x = of_int \<lfloor>x\<rfloor>")
  case True
  then obtain n where "x = of_int n" ..
  then have "- x = of_int (- n)" by simp
  then show ?thesis
    using \<open>x = of_int n\<close> by (metis rhe_of_int)
next
  case False
  then have fl: "\<lfloor>- x\<rfloor> = - \<lfloor>x\<rfloor> - 1"
    by (metis ceiling_altdef ceiling_def diff_minus_eq_add minus_diff_eq add.commute minus_minus)
  have "even (- \<lfloor>x\<rfloor> - 1) \<longleftrightarrow> odd \<lfloor>x\<rfloor>" by simp
  then show ?thesis
    unfolding round_half_even_def Let_def fl
    by (auto split: if_splits simp: field_simps)
qed


lemma ilog2_ge_iff:
  assumes "0 < y"
  shows "e \<le> ilog2 y \<longleftrightarrow> pow2 e \<le> y"
proof
  assume "e \<le> ilog2 y"
  then have "pow2 e \<le> pow2 (ilog2 y)" by (rule pow2_mono)
  with ilog2_bounds [OF assms] show "pow2 e \<le> y" by linarith
next
  assume a: "pow2 e \<le> y"
  show "e \<le> ilog2 y"
  proof (rule ccontr)
    assume "\<not> e \<le> ilog2 y"
    then have "ilog2 y + 1 \<le> e" by simp
    then have "pow2 (ilog2 y + 1) \<le> pow2 e" by (rule pow2_mono)
    with ilog2_bounds [OF assms] a show False by linarith
  qed
qed

lemma ilog2_mono:
  assumes "0 < x" "x \<le> y"
  shows "ilog2 x \<le> ilog2 y"
proof -
  have "0 < y" using assms by simp
  moreover have "pow2 (ilog2 x) \<le> y"
    using ilog2_bounds [OF assms(1)] assms(2) by linarith
  ultimately show ?thesis by (simp add: ilog2_ge_iff)
qed

lemma ilog2_zero [simp]: "ilog2 0 = 0"
  by (simp add: ilog2_def bitlen_eq_zero_iff)

lemma quantum_pos [simp]: "0 < quantum x"
  by (simp add: quantum_def)

lemma quantum_minus [simp]: "quantum (- x) = quantum x"
  by (simp add: quantum_def expo_def)

lemma round_double_minus: "round_double (- x) = - round_double x"
  by (simp add: round_double_def rhe_minus)

lemma round_double_zero [simp]: "round_double 0 = 0"
  using rhe_of_int [of 0] by (simp add: round_double_def)

lemma grid_lower:
  assumes "0 < q" "of_int n * q \<le> x"
  shows "of_int n * q \<le> of_int (round_half_even (x / q)) * q"
proof -
  have "of_int n \<le> x / q" using assms by (simp add: pos_le_divide_eq)
  then have "round_half_even (of_int n) \<le> round_half_even (x / q)" by (rule rhe_mono)
  then have "rat_of_int n \<le> of_int (round_half_even (x / q))" by simp
  then show ?thesis using assms(1) by simp
qed

lemma grid_upper:
  assumes "0 < q" "x \<le> of_int n * q"
  shows "of_int (round_half_even (x / q)) * q \<le> of_int n * q"
proof -
  have "x / q \<le> of_int n" using assms by (simp add: pos_divide_le_eq)
  then have "round_half_even (x / q) \<le> round_half_even (of_int n)" by (rule rhe_mono)
  then have "rat_of_int (round_half_even (x / q)) \<le> of_int n" by simp
  then show ?thesis using assms(1) by simp
qed

lemma round_double_nonneg:
  assumes "0 \<le> x"
  shows "0 \<le> round_double x"
  using grid_lower [of "quantum x" 0 x] assms by (simp add: round_double_def)

lemma quantum_expo: "quantum x = pow2 (expo x - 52)"
  by (simp add: quantum_def)

lemma pow2_split: "pow2 (e + 1) = of_int (2 ^ 53) * pow2 (e - 52)"
proof -
  have "e + 1 = 53 + (e - 52)" by simp
  then have "pow2 (e + 1) = pow2 (53 + (e - 52))" by (rule arg_cong)
  also have "\<dots> = pow2 53 * pow2 (e - 52)" by (rule pow2_add)
  also have "pow2 53 = of_int (2 ^ 53)" by (simp add: pow2_def)
  finally show ?thesis .
qed

lemma pow2_split': "pow2 e = of_int (2 ^ 52) * pow2 (e - 52)"
proof -
  have "e = 52 + (e - 52)" by simp
  then have "pow2 e = pow2 (52 + (e - 52))" by (rule arg_cong)
  also have "\<dots> = pow2 52 * pow2 (e - 52)" by (rule pow2_add)
  also have "pow2 52 = of_int (2 ^ 52)" by (simp add: pow2_def)
  finally show ?thesis .
qed

lemma round_double_binade_upper:
  assumes "0 < x"
  shows "round_double x \<le> pow2 (expo x + 1)"
proof -
  have "x < pow2 (ilog2 x + 1)" using ilog2_bounds [OF assms] by simp
  also have "\<dots> \<le> pow2 (expo x + 1)"
    using assms by (intro pow2_mono) (simp add: expo_def)
  finally have "x \<le> of_int (2 ^ 53) * quantum x"
    by (simp only: pow2_split quantum_expo)
  from grid_upper [OF quantum_pos this] show ?thesis
    by (simp only: round_double_def pow2_split quantum_expo)
qed

lemma round_double_binade_lower:
  assumes "0 < x" "- 1022 \<le> ilog2 x"
  shows "pow2 (expo x) \<le> round_double x"
proof -
  have e: "expo x = ilog2 x" using assms by (simp add: expo_def)
  have "pow2 (expo x) \<le> x" using ilog2_bounds [OF assms(1)] by (simp add: e)
  then have "of_int (2 ^ 52) * quantum x \<le> x"
    by (simp only: pow2_split' [symmetric] quantum_expo)
  from grid_lower [OF quantum_pos this] show ?thesis
    by (simp only: round_double_def pow2_split' [symmetric] quantum_expo)
qed

lemma round_double_mono_pos:
  assumes "0 < x" "x \<le> y"
  shows "round_double x \<le> round_double y"
proof -
  have y: "0 < y" using assms by simp
  have le: "expo x \<le> expo y"
    using ilog2_mono [OF assms] assms by (simp add: expo_def)
  show ?thesis
  proof (cases "expo x = expo y")
    case True
    then have q: "quantum y = quantum x" by (simp add: quantum_expo)
    have "x / quantum x \<le> y / quantum x"
      using assms(2) by (rule divide_right_mono) (simp add: less_imp_le)
    then have "round_half_even (x / quantum x) \<le> round_half_even (y / quantum x)"
      by (rule rhe_mono)
    then show ?thesis
      by (simp add: round_double_def q)
  next
    case False
    with le have lt: "expo x + 1 \<le> expo y" by simp
    then have "- 1022 \<le> ilog2 y" using y by (simp add: expo_def)
    from round_double_binade_lower [OF y this] round_double_binade_upper [OF assms(1)]
      pow2_mono [OF lt]
    show ?thesis by linarith
  qed
qed

lemma round_double_mono:
  assumes "x \<le> y"
  shows "round_double x \<le> round_double y"
proof -
  consider "0 < x" | "x \<le> 0" "0 \<le> y" | "y < 0" by linarith
  then show ?thesis
  proof cases
    case 1
    then show ?thesis using assms by (rule round_double_mono_pos)
  next
    case 2
    have "0 \<le> round_double y" using 2 by (simp add: round_double_nonneg)
    moreover have "0 \<le> round_double (- x)" using 2 by (simp add: round_double_nonneg)
    ultimately show ?thesis by (simp add: round_double_minus)
  next
    case 3
    then have "round_double (- y) \<le> round_double (- x)"
      using assms by (intro round_double_mono_pos) simp_all
    then show ?thesis by (simp add: round_double_minus)
  qed
qed

lemma ilog2_abs_less:
  assumes "\<bar>y\<bar> < pow2 e" "0 < e"
  shows "ilog2 \<bar>y\<bar> < e"
proof (cases "y = 0")
  case True
  then show ?thesis
    using assms by simp
next
  case False
  then have "0 < \<bar>y\<bar>" by simp
  from ilog2_ge_iff [OF this, of e] assms show ?thesis by auto
qed

lemma fl_finite:
  assumes "\<bar>round_double x\<bar> < pow2 1024"
  shows "fl x = Finite (round_double x)"
  using ilog2_abs_less [OF assms] by (simp add: fl_def Let_def)

lemma fl_overflow:
  assumes "pow2 1024 \<le> x"
  shows "fl x = PosInf"
proof -
  have x: "0 < x" using assms pow2_pos [of 1024] by linarith
  have i: "1024 \<le> ilog2 x" using assms by (simp add: ilog2_ge_iff [OF x])
  then have e: "expo x = ilog2 x" using x by (simp add: expo_def)
  have "pow2 1024 \<le> pow2 (expo x)" using i e by (intro pow2_mono) simp
  also have "\<dots> \<le> round_double x"
    using i by (intro round_double_binade_lower [OF x]) simp
  finally have big: "pow2 1024 \<le> round_double x" .
  then have pos: "0 < round_double x" using pow2_pos [of 1024] by linarith
  then have "1024 \<le> ilog2 \<bar>round_double x\<bar>"
    using big by (simp add: ilog2_ge_iff)
  then show ?thesis using x by (simp add: fl_def Let_def)
qed

lemma fl_between:
  assumes "a \<le> x" "x \<le> b" "round_double a = a" "round_double b = b"
    and "- pow2 1024 < a" "b < pow2 1024"
  shows "fl x = Finite (round_double x) \<and> a \<le> round_double x \<and> round_double x \<le> b"
proof -
  have lo: "a \<le> round_double x"
    using round_double_mono [OF assms(1)] assms(3) by simp
  have hi: "round_double x \<le> b"
    using round_double_mono [OF assms(2)] assms(4) by simp
  have "\<bar>round_double x\<bar> < pow2 1024"
    using lo hi assms(5,6) by (simp add: abs_if)
  from fl_finite [OF this] lo hi show ?thesis by simp
qed

lemma round_double_consts:
  "round_double 1 = 1" "round_double 5 = 5" "round_double 15 = 15" "round_double 30 = 30"
  "round_double 50 = 50" "round_double 100 = 100" "round_double 80 = 80" "round_double 95 = 95"
  by code_simp+

lemma pow2_1024_gt: "100 < pow2 1024"
proof -
  have "(100::rat) < 2 ^ 7" by simp
  also have "\<dots> = pow2 7" by (simp add: pow2_def)
  also have "\<dots> \<le> pow2 1024" by (rule pow2_mono) simp
  finally show ?thesis .
qed


lemma ilog2_pow2: "ilog2 (pow2 e) = e"
proof -
  have "e \<le> ilog2 (pow2 e)"
    by (simp add: ilog2_ge_iff)
  moreover have "\<not> e + 1 \<le> ilog2 (pow2 e)"
    by (simp add: ilog2_ge_iff pow2_less_iff linorder_not_le)
  ultimately show ?thesis by simp
qed

lemma round_double_pow2:
  assumes "- 1022 \<le> e"
  shows "round_double (pow2 e) = pow2 e"
proof -
  have ex: "expo (pow2 e) = e"
    using assms pow2_pos [of e] by (simp add: expo_def ilog2_pow2 abs_of_pos)
  have q: "quantum (pow2 e) = pow2 (e - 52)"
    by (simp only: quantum_expo ex)
  have "of_int (2 ^ 52) * pow2 (e - 52) / pow2 (e - 52) = rat_of_int (2 ^ 52)"
  proof (rule nonzero_mult_div_cancel_right)
    show "pow2 (e - 52) \<noteq> 0" using pow2_pos [of "e - 52"] by linarith
  qed
  then have "pow2 e / quantum (pow2 e) = of_int (2 ^ 52)"
    by (simp only: q pow2_split' [symmetric])
  then have "round_double (pow2 e) = of_int (2 ^ 52) * pow2 (e - 52)"
    unfolding round_double_def by (simp only: rhe_of_int q)
  then show ?thesis by (simp only: pow2_split' [symmetric])
qed

lemma fl_abs_bound:
  assumes "\<bar>y\<bar> \<le> pow2 e" "- 1022 \<le> e" "e < 1024"
  shows "fl y = Finite (round_double y) \<and> \<bar>round_double y\<bar> \<le> pow2 e"
proof -
  have a: "- pow2 e \<le> y" "y \<le> pow2 e" using assms(1) by linarith+
  have r: "round_double (pow2 e) = pow2 e" using assms(2) by (rule round_double_pow2)
  have r': "round_double (- pow2 e) = - pow2 e" by (simp add: round_double_minus r)
  have lt: "pow2 e < pow2 1024" using assms(3) by (simp add: pow2_less_iff)
  then have lt': "- pow2 1024 < - pow2 e" by simp
  from fl_between [OF a r' r lt' lt] show ?thesis by (simp add: abs_le_iff)
qed

lemma truediv_overflow:
  assumes "7 * 2 ^ 1024 \<le> delta"
  shows "py_int_truediv delta 7 = Inl OverflowError"
proof -
  have "rat_of_int (7 * 2 ^ 1024) \<le> of_int delta"
    using assms by (simp only: of_int_le_iff)
  then have "2 ^ 1024 \<le> rat_of_int delta / rat_of_int 7" by simp
  then have "pow2 1024 \<le> rat_of_int delta / rat_of_int 7" by (simp add: pow2_def)
  from fl_overflow [OF this] show ?thesis by (simp add: py_int_truediv_def)
qed

lemma rhe_less_int:
  assumes "z < of_int N - 1 / 2"
  shows "round_half_even z \<le> N - 1"
proof -
  have "rat_of_int (round_half_even z) - z \<le> 1 / 2"
    using rhe_error [of z] by linarith
  then have "rat_of_int (round_half_even z) < of_int N" using assms by linarith
  then have "round_half_even z < N" by (simp only: of_int_less_iff)
  then show ?thesis by simp
qed

lemma pow2_1024_split: "pow2 1024 = of_int (2 ^ 53) * pow2 971"
  using pow2_split [of 1023] by simp

lemma pow2_1023_split: "pow2 1023 = of_int (2 ^ 52) * pow2 971"
  using pow2_split' [of 1023] by simp

lemma pow2_970_half: "pow2 970 = pow2 971 / 2"
proof -
  have "pow2 971 = pow2 1 * pow2 970" using pow2_add [of 1 970] by simp
  also have "pow2 1 = 2" by (simp add: pow2_def)
  finally show ?thesis by simp
qed

lemma expo_top_binade:
  assumes "pow2 1023 \<le> x" "x < pow2 1024"
  shows "quantum x = pow2 971"
proof -
  have x: "0 < x" using assms(1) pow2_pos [of 1023] by linarith
  have "1023 \<le> ilog2 x" using assms(1) by (simp add: ilog2_ge_iff [OF x])
  moreover have "\<not> 1024 \<le> ilog2 x" using assms(2) by (simp add: ilog2_ge_iff [OF x])
  ultimately have "ilog2 x = 1023" by simp
  then show ?thesis using x by (simp add: quantum_def expo_def)
qed

lemma round_double_below_limit:
  assumes "0 \<le> x" "x < float_limit"
  shows "round_double x < pow2 1024"
proof (cases "x < pow2 1023")
  case True
  have "round_double x \<le> round_double (pow2 1023)"
    using True by (intro round_double_mono) simp
  also have "\<dots> = pow2 1023" by (rule round_double_pow2) simp
  also have "\<dots> < pow2 1024" by (simp add: pow2_less_iff)
  finally show ?thesis .
next
  case False
  then have lo: "pow2 1023 \<le> x" by simp
  have hi: "x < pow2 1024"
    using assms(2) pow2_pos [of 970] unfolding float_limit_def by linarith
  have q: "quantum x = pow2 971" using lo hi by (rule expo_top_binade)
  have "x < (of_int (2 ^ 53) - 1 / 2) * pow2 971"
    using assms(2) by (simp add: float_limit_def pow2_1024_split pow2_970_half field_simps)
  then have "x / pow2 971 < of_int (2 ^ 53) - 1 / 2"
    using pow2_pos [of 971] by (simp add: pos_divide_less_eq)
  from rhe_less_int [OF this]
  have "rat_of_int (round_half_even (x / pow2 971)) \<le> of_int (2 ^ 53 - 1)"
    by (simp only: of_int_le_iff)
  then have "round_double x \<le> of_int (2 ^ 53 - 1) * pow2 971"
    using pow2_pos [of 971] by (simp add: round_double_def q)
  also have "\<dots> < pow2 1024"
    using pow2_pos [of 971] by (simp add: pow2_1024_split algebra_simps)
  finally show ?thesis .
qed

lemma rhe_tie_top: "round_half_even (of_int (2 ^ 53) - 1 / 2) = 2 ^ 53"
  by code_simp

lemma fl_at_limit:
  assumes "float_limit \<le> x"
  shows "fl x = PosInf"
proof (cases "pow2 1024 \<le> x")
  case True
  then show ?thesis by (rule fl_overflow)
next
  case False
  then have hi: "x < pow2 1024" by simp
  have "pow2 1023 \<le> float_limit"
    using pow2_pos [of 971]
    by (simp add: float_limit_def pow2_1024_split pow2_1023_split pow2_970_half)
  then have lo: "pow2 1023 \<le> x" using assms by linarith
  then have x: "0 < x" using pow2_pos [of 1023] by linarith
  have q: "quantum x = pow2 971" using lo hi by (rule expo_top_binade)
  have "(of_int (2 ^ 53) - 1 / 2) * pow2 971 \<le> x"
    using assms by (simp add: float_limit_def pow2_1024_split pow2_970_half field_simps)
  then have "of_int (2 ^ 53) - 1 / 2 \<le> x / pow2 971"
    using pow2_pos [of 971] by (simp add: pos_le_divide_eq)
  from rhe_mono [OF this] have "2 ^ 53 \<le> round_half_even (x / pow2 971)"
    by (simp only: rhe_tie_top)
  then have "rat_of_int (2 ^ 53) \<le> of_int (round_half_even (x / pow2 971))"
    by (simp only: of_int_le_iff)
  then have big: "pow2 1024 \<le> round_double x"
    using pow2_pos [of 971] by (simp add: round_double_def q pow2_1024_split)
  then have "0 < round_double x" using pow2_pos [of 1024] by linarith
  then have "1024 \<le> ilog2 \<bar>round_double x\<bar>"
    using big by (simp add: ilog2_ge_iff)
  then show ?thesis using x by (simp add: fl_def Let_def)
qed

lemma fl_below_limit:
  assumes "\<bar>x\<bar> < float_limit"
  shows "fl x = Finite (round_double x)"
proof -
  have "\<bar>round_double x\<bar> < pow2 1024"
  proof (cases "0 \<le> x")
    case True
    then have "round_double x < pow2 1024"
      using assms by (intro round_double_below_limit) simp_all
    then show ?thesis using round_double_nonneg [OF True] by simp
  next
    case False
    then have "round_double (- x) < pow2 1024"
      using assms by (intro round_double_below_limit) simp_all
    moreover have "0 \<le> round_double (- x)"
      using False by (intro round_double_nonneg) simp
    ultimately show ?thesis by (simp add: round_double_minus)
  qed
  then show ?thesis by (rule fl_finite)
qed

lemma fl_at_limit_neg:
  assumes "x \<le> - float_limit"
  shows "fl x = NegInf"
proof -
  have "fl (- x) = PosInf" using assms by (intro fl_at_limit) simp
  moreover have "0 < float_limit"
    using pow2_less_iff [of 970 1024] by (simp add: float_limit_def)
  ultimately show ?thesis
    using assms by (auto simp: fl_def Let_def round_double_minus split: if_splits)
qed

lemma grid_fixed:
  assumes "0 < q" "z = of_int m * q"
  shows "of_int (round_half_even (z / q)) * q = z"
proof -
  have "z / q = of_int m" using assms by simp
  then show ?thesis using assms(2) by (simp only: rhe_of_int)
qed

lemma pow2_nonneg_int: "0 \<le> d \<Longrightarrow> pow2 d = of_int (2 ^ nat d)"
  by (simp add: pow2_def)

lemma round_double_idem_pos:
  assumes "0 < y"
  shows "round_double (round_double y) = round_double y"
proof -
  define z where "z = round_double y"
  define n where "n = round_half_even (y / quantum y)"
  have z: "z = of_int n * pow2 (expo y - 52)"
    by (simp add: z_def n_def round_double_def quantum_expo)
  have z0: "0 \<le> z" using assms by (simp add: z_def round_double_nonneg)
  have ey: "- 1022 \<le> expo y" by (simp add: expo_def)
  have up: "z \<le> pow2 (expo y + 1)"
    unfolding z_def using assms by (rule round_double_binade_upper)
  consider "z = 0" | "z = pow2 (expo y + 1)" | "0 < z" "z < pow2 (expo y + 1)"
    using z0 up by linarith
  then have "round_double z = z"
  proof cases
    case 1
    then show ?thesis by simp
  next
    case 2
    have "round_double (pow2 (expo y + 1)) = pow2 (expo y + 1)"
      using ey by (intro round_double_pow2) simp
    then show ?thesis by (simp only: 2)
  next
    case 3
    have "\<not> expo y + 1 \<le> ilog2 z"
      using 3 by (simp add: ilog2_ge_iff)
    then have "ilog2 \<bar>z\<bar> \<le> expo y" using 3(1) by simp
    then have le: "expo z \<le> expo y" using ey by (simp add: expo_def)
    define d where "d = expo y - expo z"
    have d: "0 \<le> d" using le by (simp add: d_def)
    have "pow2 (expo y - 52) = pow2 (d + (expo z - 52))" by (simp add: d_def)
    also have "\<dots> = pow2 d * pow2 (expo z - 52)" by (rule pow2_add)
    also have "pow2 d = of_int (2 ^ nat d)" using d by (rule pow2_nonneg_int)
    finally have "z = of_int (n * 2 ^ nat d) * quantum z"
      by (simp add: z quantum_expo)
    from grid_fixed [OF quantum_pos this] show ?thesis
      by (simp add: round_double_def)
  qed
  then show ?thesis by (simp add: z_def)
qed

lemma round_double_idem: "round_double (round_double y) = round_double y"
proof -
  consider "0 < y" | "y = 0" | "y < 0" by linarith
  then show ?thesis
  proof cases
    case 1
    then show ?thesis by (rule round_double_idem_pos)
  next
    case 2
    then show ?thesis by simp
  next
    case 3
    then have "round_double (round_double (- y)) = round_double (- y)"
      by (intro round_double_idem_pos) simp
    then show ?thesis by (simp add: round_double_minus)
  qed
qed

lemma fl_Finite_D:
  assumes "fl y = Finite z"
  shows "z = round_double y \<and> \<bar>z\<bar> < pow2 1024"
proof -
  have z: "z = round_double y" and i: "\<not> 1024 \<le> ilog2 \<bar>z\<bar>"
    using assms by (auto simp: fl_def Let_def split: if_splits)
  have "\<bar>z\<bar> < pow2 1024"
  proof (cases "z = 0")
    case True
    then show ?thesis by simp
  next
    case False
    then have "0 < \<bar>z\<bar>" by simp
    from ilog2_ge_iff [OF this, of 1024] i show ?thesis by simp
  qed
  with z show ?thesis by simp
qed

lemma fl_idem:
  assumes "fl y = Finite z"
  shows "fl z = Finite z"
proof -
  from fl_Finite_D [OF assms] have z: "z = round_double y" "\<bar>z\<bar> < pow2 1024" by blast+
  have "round_double z = z" by (simp add: z(1) round_double_idem)
  with fl_finite [of z] z(2) show ?thesis by simp
qed

lemma double_large_is_int:
  assumes "round_double z = z" "pow2 53 \<le> \<bar>z\<bar>"
  shows "\<exists>m. z = of_int m"
proof -
  have nz: "0 < \<bar>z\<bar>" using assms(2) pow2_pos [of 53] by linarith
  have "53 \<le> ilog2 \<bar>z\<bar>" using assms(2) by (simp add: ilog2_ge_iff [OF nz])
  then have "0 \<le> expo z - 52" by (simp add: expo_def)
  from pow2_nonneg_int [OF this] have "quantum z = of_int (2 ^ nat (expo z - 52))"
    by (simp add: quantum_expo)
  then have "round_double z = of_int (round_half_even (z / quantum z) * 2 ^ nat (expo z - 52))"
    by (simp add: round_double_def)
  with assms(1) show ?thesis by metis
qed

lemma py_round2_total:
  assumes "fl y = Finite x"
  shows "\<exists>k r. py_round (Finite x) 2 = Inr (Finite r) \<and> fl (of_int k / 100) = Finite r
           \<and> \<bar>of_int k / 100 - x\<bar> \<le> 1 / 200"
proof -
  let ?k = "round_half_even (x * 10\<^sup>2)"
  from fl_Finite_D [OF assms] have x: "x = round_double y" "\<bar>x\<bar> < pow2 1024" by blast+
  have fixed: "round_double x = x" by (simp add: x(1) round_double_idem)
  have "\<bar>of_int ?k - x * 10\<^sup>2\<bar> \<le> 1 / 2" by (rule rhe_error)
  then have err: "\<bar>of_int ?k / 100 - x\<bar> \<le> 1 / 200"
    by (simp add: abs_le_iff field_simps)
  have "\<exists>r. fl (of_int ?k / 100) = Finite r"
  proof (cases "pow2 53 \<le> \<bar>x\<bar>")
    case True
    from double_large_is_int [OF fixed this] obtain m where m: "x = of_int m" by blast
    then have "x * 10\<^sup>2 = of_int (m * 100)" by simp
    then have "?k = m * 100" by (simp only: rhe_of_int)
    then have "rat_of_int ?k / 100 = x" by (simp add: m)
    then show ?thesis using fl_idem [OF assms] by simp
  next
    case False
    have "pow2 54 = pow2 1 * pow2 53" using pow2_add [of 1 53] by simp
    also have "pow2 1 = 2" by (simp add: pow2_def)
    finally have p: "pow2 54 = 2 * pow2 53" .
    have "1 \<le> pow2 53" using pow2_mono [of 0 53] by (simp add: pow2_def)
    then have "\<bar>rat_of_int ?k / 100\<bar> \<le> pow2 54"
      using err False unfolding p by linarith
    from fl_abs_bound [OF this] show ?thesis by simp
  qed
  then obtain r where r: "fl (of_int ?k / 100) = Finite r" by blast
  then have "py_round (Finite x) 2 = Inr (Finite r)" by simp
  with r err show ?thesis by blast
qed

lemma float_limit_ge: "pow2 1023 \<le> float_limit"
  using pow2_pos [of 971]
  by (simp add: float_limit_def pow2_1024_split pow2_1023_split pow2_970_half)

lemma float_limit_gt_one: "1 < float_limit"
proof -
  have "(1::rat) < pow2 1" by (simp add: pow2_def)
  also have "\<dots> \<le> pow2 1023" by (rule pow2_mono) simp
  finally show ?thesis using float_limit_ge by linarith
qed

lemma fl_not_NaN: "fl y \<noteq> NaN"
  by (simp add: fl_def Let_def)

lemma py_int_truediv_finite:
  assumes "b \<noteq> 0" "\<bar>rat_of_int a / of_int b\<bar> < float_limit"
  shows "py_int_truediv a b = Inr (Finite (round_double (of_int a / of_int b)))"
  using assms(1) fl_below_limit [OF assms(2)] by (simp add: py_int_truediv_def)

lemma py_int_truediv_overflow:
  assumes "b \<noteq> 0" "float_limit \<le> \<bar>rat_of_int a / of_int b\<bar>"
  shows "py_int_truediv a b = Inl OverflowError"
proof (cases "0 \<le> rat_of_int a / of_int b")
  case True
  then have "fl (of_int a / of_int b) = PosInf" using assms(2) by (intro fl_at_limit) simp
  then show ?thesis using assms(1) by (simp add: py_int_truediv_def)
next
  case False
  then have "fl (of_int a / of_int b) = NegInf" using assms(2) by (intro fl_at_limit_neg) simp
  then show ?thesis using assms(1) by (simp add: py_int_truediv_def)
qed

lemma truediv_7_pos:
  assumes "0 < delta" "rat_of_int delta < 7 * float_limit"
  shows "\<exists>r. py_int_truediv delta 7 = Inr (Finite r) \<and> 0 < r"
proof -
  let ?x = "rat_of_int delta / rat_of_int 7"
  have "1 \<le> delta" using assms(1) by simp
  then have "(1::rat) \<le> of_int delta" by (metis of_int_1_le_iff)
  then have lo: "1 / 8 \<le> ?x" by simp
  then have "\<bar>?x\<bar> < float_limit" using assms(2) by simp
  then have "py_int_truediv delta 7 = Inr (Finite (round_double ?x))"
    by (intro py_int_truediv_finite) simp_all
  moreover have "round_double (1 / 8) = 1 / 8" by code_simp
  then have "1 / 8 \<le> round_double ?x" using round_double_mono [OF lo] by simp
  ultimately show ?thesis by simp
qed

lemma truediv_7_overflow:
  assumes "7 * float_limit \<le> rat_of_int delta"
  shows "py_int_truediv delta 7 = Inl OverflowError"
proof -
  have "0 < float_limit" using float_limit_gt_one by linarith
  then have "float_limit \<le> \<bar>rat_of_int delta / rat_of_int 7\<bar>"
    using assms by simp
  then show ?thesis by (intro py_int_truediv_overflow) simp_all
qed

text \<open>
  The model on sample values, as CPython computes them: \<open>1 / 3\<close>; \<open>(2 ** 53 + 1) / 1\<close>,
  a tie that goes to the even neighbour; \<open>412 / 500\<close>, its product with 100 (the double
  \<open>82.39999999999999\<close>) and the rounding of that to \<open>82.4\<close>; \<open>round(2.675, 2) = 2.67\<close> and
  \<open>round(0.125, 2) = 0.12\<close>; and the text of \<open>82.4\<close> with one decimal place.
\<close>

lemma float_model_samples:
  "py_int_truediv 1 3 = Inr (Finite (6004799503160661 / 18014398509481984))"
  "py_int_truediv (2 ^ 53 + 1) 1 = Inr (Finite (2 ^ 53))"
  "py_int_truediv 412 500 = Inr (fl (824 / 1000))"
  "py_float_mul (fl (824 / 1000)) (Finite 100) = Finite (5798384520239513 / 70368744177664)"
  "py_round (Finite (5798384520239513 / 70368744177664)) 2 = Inr (fl (824 / 10))"
  "py_round (fl (2675 / 1000)) 2 = Inr (fl (267 / 100))"
  "py_round (Finite (1 / 8)) 2 = Inr (fl (12 / 100))"
  "py_format_1f (fl (824 / 10)) = ''82.4''"
  by code_simp+


section \<open>Properties of the metric derivation\<close>

lemma fl_in_range:
  assumes "a \<le> x" "x \<le> b" "round_double a = a" "round_double b = b" "- 100 \<le> a" "b \<le> 100"
  shows "\<exists>y. fl x = Finite y \<and> a \<le> y \<and> y \<le> b"
proof -
  have "- pow2 1024 < a" "b < pow2 1024"
    using assms(5,6) pow2_1024_gt by linarith+
  from fl_between [OF assms(1-4) this] show ?thesis by blast
qed

lemma fl_nonneg_cases:
  assumes "0 \<le> x"
  shows "(\<exists>y. fl x = Finite y \<and> 0 \<le> y) \<or> fl x = PosInf"
proof (cases "x = 0")
  case True
  then show ?thesis by (simp add: fl_def)
next
  case False
  with assms have "0 < x" by simp
  then show ?thesis
    using round_double_nonneg [OF assms] by (simp add: fl_def Let_def)
qed

lemma expiry_score_range: "5 \<le> expiry_score d \<and> expiry_score d \<le> 50"
  by (simp add: expiry_score_def)

lemma expiry_score_fixed: "round_double (of_int (expiry_score d)) = of_int (expiry_score d)"
  by (simp add: expiry_score_def round_double_consts)

lemma ratio_min_range:
  assumes "float_le (Finite 0) u"
  shows "\<exists>ratio m. py_float_div u (Finite 100) = Inr ratio
           \<and> py_min ratio (Finite 1) = Finite m \<and> 0 \<le> m \<and> m \<le> 1"
proof (cases u)
  case (Finite a)
  with assms have "0 \<le> a / 100" by simp
  from fl_nonneg_cases [OF this] show ?thesis
  proof
    assume "\<exists>y. fl (a / 100) = Finite y \<and> 0 \<le> y"
    then obtain y where "fl (a / 100) = Finite y" "0 \<le> y" by blast
    then show ?thesis
      using Finite by (auto simp: py_min_def)
  next
    assume "fl (a / 100) = PosInf"
    then show ?thesis
      using Finite by (auto simp: py_min_def)
  qed
next
  case PosInf
  then show ?thesis by (simp add: py_min_def)
next
  case NegInf
  with assms show ?thesis by simp
next
  case NaN
  with assms show ?thesis by simp
qed

lemma truncate_rat_range:
  assumes "of_int a \<le> s" "s \<le> of_int b" "0 \<le> a"
  shows "a \<le> truncate_rat s \<and> truncate_rat s \<le> b"
proof -
  have "0 \<le> s" using assms by (meson of_int_0_le_iff order_trans)
  then have "truncate_rat s = \<lfloor>s\<rfloor>" by (simp add: truncate_rat_def)
  then show ?thesis using assms by (simp add: le_floor_iff floor_le_iff)
qed

lemma risk_score_range:
  assumes "float_le (Finite 0) u"
  shows "\<exists>s. calculate_risk_score u d = Inr s \<and> 5 \<le> s \<and> s \<le> 100"
proof -
  from ratio_min_range [OF assms] obtain ratio m where
    r: "py_float_div u (Finite 100) = Inr ratio" and
    m: "py_min ratio (Finite 1) = Finite m" "0 \<le> m" "m \<le> 1" by blast
  have "\<exists>t. fl (m * 50) = Finite t \<and> 0 \<le> t \<and> t \<le> 50"
    using m by (intro fl_in_range) (simp_all add: round_double_consts)
  then obtain t where t: "fl (m * 50) = Finite t" "0 \<le> t" "t \<le> 50" by blast
  let ?e = "expiry_score d"
  have e: "5 \<le> ?e" "?e \<le> 50" using expiry_score_range [of d] by simp_all
  then have e': "(5::rat) \<le> of_int ?e" "rat_of_int ?e \<le> 50"
    using of_int_le_iff [of 5 ?e, where ?'a = rat] of_int_le_iff [of ?e 50, where ?'a = rat]
    by simp_all
  have "\<exists>s. fl (t + of_int ?e) = Finite s \<and> 5 \<le> s \<and> s \<le> 100"
    using t e' by (intro fl_in_range) (simp_all add: round_double_consts)
  then obtain s where s: "fl (t + of_int ?e) = Finite s" "5 \<le> s" "s \<le> 100" by blast
  have "5 \<le> truncate_rat s \<and> truncate_rat s \<le> 100"
    using s truncate_rat_range [of 5 s 100] by simp
  then show ?thesis
    using r m t s by (simp add: calculate_risk_score_def Let_def)
qed


text \<open>
  C4. For every non-negative \<open>utilization_pct\<close> (a finite float that is at least zero, or
  the positive infinity) and every non-negative \<open>days_to_expiry\<close>, \<open>calculate_risk_score\<close>
  returns a score, and the score lies between 0 and 100.
\<close>

theorem calculate_risk_score_in_0_100:
  assumes "float_ge utilization_pct (Finite 0)" and "0 \<le> days_to_expiry"
  shows "\<exists>score. calculate_risk_score utilization_pct days_to_expiry = Inr score
           \<and> 0 \<le> score \<and> score \<le> 100"
proof -
  from assms(1) have "float_le (Finite 0) utilization_pct"
    by (simp add: float_ge_def)
  from risk_score_range [OF this, of days_to_expiry] show ?thesis
    by force
qed

theorem calculate_risk_score_in_0_100_witness:
  "float_ge (Finite 150) (Finite 0) \<and> (0::int) \<le> 10
   \<and> calculate_risk_score (Finite 150) 10 = Inr 100"
proof -
  have u: "float_ge (Finite 150) (Finite 0)"
    by (simp add: float_ge_def)
  have d: "(0::int) \<le> 10"
    by simp
  have v: "calculate_risk_score (Finite 150) 10 = Inr 100"
    by code_simp
  from calculate_risk_score_in_0_100 [OF u d] u d v show ?thesis
    by simp
qed

text \<open>
  C9. For every non-negative \<open>utilization_pct\<close> and every \<open>days_to_expiry\<close>,
  \<open>calculate_risk_score\<close> returns a score of at least 5: the expiry component is at least 5
  and the utilization component is not negative. The bound is reached (utilization 0,
  366 days to expiry), so 5 and not 0 is the least score on these inputs.
\<close>

theorem calculate_risk_score_at_least_5:
  assumes "float_ge utilization_pct (Finite 0)"
  shows "(\<exists>score. calculate_risk_score utilization_pct days_to_expiry = Inr score \<and> 5 \<le> score)
         \<and> 5 \<le> expiry_score days_to_expiry
         \<and> calculate_risk_score (Finite 0) 366 = Inr 5"
proof -
  from assms have "float_le (Finite 0) utilization_pct"
    by (simp add: float_ge_def)
  from risk_score_range [OF this, of days_to_expiry]
  have "\<exists>score. calculate_risk_score utilization_pct days_to_expiry = Inr score \<and> 5 \<le> score"
    by force
  moreover have "5 \<le> expiry_score days_to_expiry"
    using expiry_score_range [of days_to_expiry] by simp
  moreover have "calculate_risk_score (Finite 0) 366 = Inr 5"
    by code_simp
  ultimately show ?thesis
    by simp
qed

theorem calculate_risk_score_at_least_5_witness:
  "float_ge (Finite (1 / 2)) (Finite 0) \<and> calculate_risk_score (Finite (1 / 2)) (- 3) = Inr 50"
proof -
  have u: "float_ge (Finite (1 / 2)) (Finite 0)"
    by (simp add: float_ge_def)
  have v: "calculate_risk_score (Finite (1 / 2)) (- 3) = Inr 50"
    by code_simp
  from calculate_risk_score_at_least_5 [OF u, of "- 3"] u v show ?thesis
    by simp
qed


lemma utilization_in_float_range:
  assumes "0 < e" "\<bar>rat_of_int p / of_int e\<bar> < float_limit"
  shows "\<exists>q r. py_int_truediv p e = Inr (Finite q)
           \<and> py_round (py_float_mul (Finite q) (Finite 100)) 2 = Inr r
           \<and> calculate_utilization_pct p e = Inr r
           \<and> (\<forall>x. py_float_mul (Finite q) (Finite 100) = Finite x \<longrightarrow>
                 (\<exists>k v. r = Finite v \<and> fl (of_int k / 100) = Finite v
                    \<and> \<bar>of_int k / 100 - x\<bar> \<le> 1 / 200))"
proof -
  let ?q = "round_double (of_int p / of_int e)"
  have e: "e \<noteq> 0" using assms(1) by simp
  have q: "py_int_truediv p e = Inr (Finite ?q)"
    using e assms(2) by (rule py_int_truediv_finite)
  have "\<exists>r. py_round (fl (?q * 100)) 2 = Inr r
          \<and> (\<forall>x. fl (?q * 100) = Finite x \<longrightarrow>
                (\<exists>k v. r = Finite v \<and> fl (of_int k / 100) = Finite v
                   \<and> \<bar>of_int k / 100 - x\<bar> \<le> 1 / 200))"
  proof (cases "fl (?q * 100)")
    case (Finite x)
    from py_round2_total [OF this] obtain k v where
      "py_round (Finite x) 2 = Inr (Finite v)" "fl (of_int k / 100) = Finite v"
      "\<bar>of_int k / 100 - x\<bar> \<le> 1 / 200" by blast
    then show ?thesis using Finite by auto
  next
    case PosInf
    then show ?thesis by simp
  next
    case NegInf
    then show ?thesis by simp
  next
    case NaN
    then show ?thesis using fl_not_NaN by blast
  qed
  then obtain r where r: "py_round (fl (?q * 100)) 2 = Inr r"
    and d: "\<forall>x. fl (?q * 100) = Finite x \<longrightarrow>
                (\<exists>k v. r = Finite v \<and> fl (of_int k / 100) = Finite v
                   \<and> \<bar>of_int k / 100 - x\<bar> \<le> 1 / 200)" by (elim exE conjE)
  have "calculate_utilization_pct p e = Inr r"
    using assms(1) q r by (simp add: calculate_utilization_pct_def)
  with q r d show ?thesis by simp
qed

text \<open>
  C1 (as amended). \<open>calculate_utilization_pct\<close> returns \<open>0.0\<close> when \<open>entitled_vms \<le> 0\<close>. When
  \<open>entitled_vms > 0\<close> and the quotient rounds to a finite float (its absolute value is
  below \<open>float_limit\<close>), the function returns
  \<open>round((protected_vms / entitled_vms) * 100, 2)\<close> in float arithmetic: the quotient \<open>q\<close>
  is a finite double, and when the product \<open>x = q * 100\<close> is finite too, the result is
  the double nearest to a decimal \<open>k / 100\<close> with two places that lies within \<open>0.005\<close> of
  \<open>x\<close> (a product that overflows to an infinity is returned as it is). When the
  quotient does not round to a finite float, the division raises \<open>OverflowError\<close>. For
  412 of 500 the function returns the float \<open>82.4\<close>.
\<close>

theorem calculate_utilization_pct_rounds:
  "(entitled_vms \<le> 0 \<longrightarrow> calculate_utilization_pct protected_vms entitled_vms = Inr (Finite 0))
   \<and> (0 < entitled_vms \<and> \<bar>rat_of_int protected_vms / of_int entitled_vms\<bar> < float_limit \<longrightarrow>
        (\<exists>q r. py_int_truediv protected_vms entitled_vms = Inr (Finite q)
           \<and> py_round (py_float_mul (Finite q) (Finite 100)) 2 = Inr r
           \<and> calculate_utilization_pct protected_vms entitled_vms = Inr r
           \<and> (\<forall>x. py_float_mul (Finite q) (Finite 100) = Finite x \<longrightarrow>
                 (\<exists>k v. r = Finite v \<and> fl (of_int k / 100) = Finite v
                    \<and> \<bar>of_int k / 100 - x\<bar> \<le> 1 / 200))))
   \<and> (0 < entitled_vms \<and> float_limit \<le> \<bar>rat_of_int protected_vms / of_int entitled_vms\<bar> \<longrightarrow>
        calculate_utilization_pct protected_vms entitled_vms = Inl OverflowError)
   \<and> calculate_utilization_pct 412 500 = Inr (fl (824 / 10))"
proof (intro conjI impI)
  assume "entitled_vms \<le> 0"
  then show "calculate_utilization_pct protected_vms entitled_vms = Inr (Finite 0)"
    by (simp add: calculate_utilization_pct_def)
next
  assume "0 < entitled_vms \<and> \<bar>rat_of_int protected_vms / of_int entitled_vms\<bar> < float_limit"
  then show "\<exists>q r. py_int_truediv protected_vms entitled_vms = Inr (Finite q)
           \<and> py_round (py_float_mul (Finite q) (Finite 100)) 2 = Inr r
           \<and> calculate_utilization_pct protected_vms entitled_vms = Inr r
           \<and> (\<forall>x. py_float_mul (Finite q) (Finite 100) = Finite x \<longrightarrow>
                 (\<exists>k v. r = Finite v \<and> fl (of_int k / 100) = Finite v
                    \<and> \<bar>of_int k / 100 - x\<bar> \<le> 1 / 200))"
    using utilization_in_float_range by blast
next
  assume a: "0 < entitled_vms \<and> float_limit \<le> \<bar>rat_of_int protected_vms / of_int entitled_vms\<bar>"
  then have "entitled_vms \<noteq> 0"
    and "float_limit \<le> \<bar>rat_of_int protected_vms / of_int entitled_vms\<bar>"
    by blast+
  then have "py_int_truediv protected_vms entitled_vms = Inl OverflowError"
    by (rule py_int_truediv_overflow)
  then show "calculate_utilization_pct protected_vms entitled_vms = Inl OverflowError"
    using a by (simp add: calculate_utilization_pct_def)
next
  show "calculate_utilization_pct 412 500 = Inr (fl (824 / 10))"
    by code_simp
qed

theorem calculate_utilization_pct_rounds_witness:
  "calculate_utilization_pct 412 0 = Inr (Finite 0)
   \<and> (0::int) < 500 \<and> \<bar>rat_of_int 412 / of_int 500\<bar> < float_limit
   \<and> calculate_utilization_pct 412 500 = Inr (Finite (2899192260119757 / 35184372088832))"
proof -
  have a: "(0::int) < 500 \<and> \<bar>rat_of_int 412 / of_int 500\<bar> < float_limit"
    using float_limit_gt_one by simp
  have v: "fl (824 / 10) = Finite (2899192260119757 / 35184372088832)"
    by code_simp
  have z: "calculate_utilization_pct 412 0 = Inr (Finite 0)"
    using calculate_utilization_pct_rounds [of 0 412] by simp
  have w: "calculate_utilization_pct 412 500 = Inr (fl (824 / 10))"
    using calculate_utilization_pct_rounds [of 500 412] by blast
  from a v z w show ?thesis by simp
qed

text \<open>
  C1 as stated fails for a quotient beyond the range of a float: \<open>2 ** 1024 / 1\<close> raises
  \<open>OverflowError\<close> (integer division result too large for a float), so the function
  returns nothing for \<open>protected_vms = 2 ** 1024\<close>, \<open>entitled_vms = 1\<close>.
\<close>

theorem calculate_utilization_pct_overflow_counterexample:
  "(0::int) < 1 \<and> calculate_utilization_pct (2 ^ 1024) 1 = Inl OverflowError"
proof -
  have "pow2 1024 \<le> rat_of_int (2 ^ 1024) / rat_of_int 1"
    by (simp add: pow2_def)
  from fl_overflow [OF this] show ?thesis
    by (simp add: calculate_utilization_pct_def py_int_truediv_def)
qed

lemma fl_one: "fl 1 = Finite 1"
  by code_simp

lemma fl_le_one:
  assumes "x \<le> 1"
  shows "\<not> float_less (Finite 1) (fl x)"
proof (cases "0 < x")
  case True
  then have "0 \<le> x" by simp
  from fl_in_range [OF this assms] obtain y where "fl x = Finite y" "y \<le> 1"
    by (auto simp: round_double_consts)
  then show ?thesis by simp
next
  case False
  have "round_double x \<le> 1"
    using round_double_mono [OF assms] by (simp add: round_double_consts)
  then show ?thesis
    using False by (simp add: fl_def Let_def)
qed

lemma fl_ge_one:
  assumes "1 \<le> x"
  shows "py_min (fl x) (Finite 1) = Finite 1"
proof -
  have "1 \<le> round_double x"
    using round_double_mono [OF assms] by (simp add: round_double_consts)
  moreover have "0 < x" using assms by simp
  ultimately show ?thesis
    by (auto simp add: fl_def Let_def py_min_def)
qed

lemma float_div_100: "\<exists>r. py_float_div u (Finite 100) = Inr r"
  by (cases u) simp_all

lemma ratio_min_swap:
  assumes "py_float_div u (Finite 100) = Inr ratio"
  shows "py_float_div (py_min u (Finite 100)) (Finite 100) = Inr (py_min ratio (Finite 1))"
proof (cases u)
  case (Finite a)
  show ?thesis
  proof (cases "100 < a")
    case True
    then have "1 \<le> a / 100" by simp
    from fl_ge_one [OF this] True show ?thesis
      using Finite assms by (auto simp: py_min_def fl_one)
  next
    case False
    then have "a / 100 \<le> 1" by simp
    from fl_le_one [OF this] False show ?thesis
      using Finite assms by (auto simp: py_min_def)
  qed
qed (use assms in \<open>auto simp: py_min_def fl_one\<close>)

lemma risk_score_is_truncated_formula:
  "calculate_risk_score u d = spec_risk_score py_int_of_float u d"
proof -
  have e: "expiry_score d = expiry_component d"
    by (simp add: expiry_score_def expiry_component_def)
  obtain ratio where r: "py_float_div u (Finite 100) = Inr ratio"
    using float_div_100 by blast
  show ?thesis
    by (simp add: calculate_risk_score_def spec_risk_score_def Let_def e r ratio_min_swap [OF r]
          del: py_float_div.simps)
qed

lemma trunc_floor: "0 \<le> x \<Longrightarrow> truncate_rat x = \<lfloor>x\<rfloor>"
  by (simp add: truncate_rat_def)

lemma risk_score_is_floor_formula:
  assumes "float_le (Finite 0) u"
  shows "calculate_risk_score u d = spec_risk_score py_floor u d"
proof -
  from ratio_min_range [OF assms] obtain ratio m where
    r: "py_float_div u (Finite 100) = Inr ratio" and
    m: "py_min ratio (Finite 1) = Finite m" "0 \<le> m" "m \<le> 1" by blast
  have "\<exists>t. fl (m * 50) = Finite t \<and> 0 \<le> t \<and> t \<le> 50"
    using m by (intro fl_in_range) (simp_all add: round_double_consts)
  then obtain t where t: "fl (m * 50) = Finite t" "0 \<le> t" "t \<le> 50" by blast
  let ?e = "expiry_score d"
  have e: "expiry_score d = expiry_component d"
    by (simp add: expiry_score_def expiry_component_def)
  have "5 \<le> ?e" "?e \<le> 50" using expiry_score_range [of d] by simp_all
  then have e': "(5::rat) \<le> of_int ?e" "rat_of_int ?e \<le> 50"
    using of_int_le_iff [of 5 ?e, where ?'a = rat] of_int_le_iff [of ?e 50, where ?'a = rat]
    by simp_all
  have "\<exists>s. fl (t + of_int ?e) = Finite s \<and> 5 \<le> s \<and> s \<le> 100"
    using t e' by (intro fl_in_range) (simp_all add: round_double_consts)
  then obtain s where s: "fl (t + of_int ?e) = Finite s" "5 \<le> s" "s \<le> 100" by blast
  have "truncate_rat s = \<lfloor>s\<rfloor>" using s by (simp add: trunc_floor)
  then show ?thesis
    using m t s
    by (simp add: risk_score_is_truncated_formula spec_risk_score_def ratio_min_swap [OF r] e [symmetric]
          del: py_float_div.simps)
qed


text \<open>
  C2 (as amended). For every \<open>utilization_pct\<close> and \<open>days_to_expiry\<close>, \<open>calculate_risk_score\<close>
  is the formula \<open>min(utilization_pct,100)/100*50 + expiry_component\<close> converted with
  \<open>int\<close>, that is truncated toward zero, and clamped to at most 100 (NaN and the negative
  infinity raise in both). For a non-negative \<open>utilization_pct\<close> the truncation is the
  floor, so there the score is the floor formula of the specification. A utilization of
  82.4 with 180 days to expiry gives 56.
\<close>

theorem calculate_risk_score_truncates:
  "calculate_risk_score utilization_pct days_to_expiry
     = spec_risk_score py_int_of_float utilization_pct days_to_expiry
   \<and> (float_ge utilization_pct (Finite 0) \<longrightarrow>
        calculate_risk_score utilization_pct days_to_expiry
          = spec_risk_score py_floor utilization_pct days_to_expiry)
   \<and> calculate_risk_score (fl (824 / 10)) 180 = Inr 56"
proof (intro conjI impI)
  show "calculate_risk_score utilization_pct days_to_expiry
          = spec_risk_score py_int_of_float utilization_pct days_to_expiry"
    by (rule risk_score_is_truncated_formula)
next
  assume "float_ge utilization_pct (Finite 0)"
  then have "float_le (Finite 0) utilization_pct"
    by (simp add: float_ge_def)
  then show "calculate_risk_score utilization_pct days_to_expiry
               = spec_risk_score py_floor utilization_pct days_to_expiry"
    by (rule risk_score_is_floor_formula)
next
  show "calculate_risk_score (fl (824 / 10)) 180 = Inr 56"
    by code_simp
qed

theorem calculate_risk_score_truncates_witness:
  "float_ge (Finite 96) (Finite 0)
   \<and> calculate_risk_score (Finite 96) 20 = spec_risk_score py_floor (Finite 96) 20
   \<and> spec_risk_score py_floor (Finite 96) 20 = Inr 98"
proof -
  have u: "float_ge (Finite 96) (Finite 0)"
    by (simp add: float_ge_def)
  have v: "spec_risk_score py_floor (Finite 96) 20 = Inr 98"
    by code_simp
  have w: "calculate_risk_score (Finite 96) 20 = spec_risk_score py_floor (Finite 96) 20"
    using calculate_risk_score_truncates [of "Finite 96" 20] u by blast
  from u v w show ?thesis
    by simp
qed

text \<open>
  C2 as stated fails for a negative utilization: for \<open>utilization_pct = -25.0\<close> and 400 days
  the sum is \<open>-12.5 + 5 = -7.5\<close> (exact in floats and in the rationals); its floor is
  \<open>-8\<close>, and the code returns \<open>int(-7.5) = -7\<close>.
\<close>

theorem calculate_risk_score_floor_counterexample:
  "calculate_risk_score (Finite (- 25)) 400 = Inr (- 7)
   \<and> spec_risk_score py_floor (Finite (- 25)) 400 = Inr (- 8)
   \<and> \<lfloor>min (- 25) 100 / 100 * 50 + (5::rat)\<rfloor> = - 8"
proof -
  have "calculate_risk_score (Finite (- 25)) 400 = Inr (- 7)"
    by code_simp
  moreover have "spec_risk_score py_floor (Finite (- 25)) 400 = Inr (- 8)"
    by code_simp
  moreover have "\<lfloor>min (- 25) 100 / 100 * 50 + (5::rat)\<rfloor> = - 8"
    by code_simp
  ultimately show ?thesis
    by simp
qed

text \<open>
  The formula has to be read in float arithmetic: for \<open>utilization_pct = 1.9999999999999998\<close> (the
  double \<open>2 - 2 ** -52\<close>) and 30 days the float sum rounds up to \<open>51.0\<close> and the
  score is 51, where the same formula over the rationals has the floor 50.
\<close>

lemma risk_score_float_rounding:
  "calculate_risk_score (Finite (2 - 1 / 2 ^ 52)) 30 = Inr 51
   \<and> \<lfloor>min (2 - 1 / 2 ^ 52) 100 / 100 * 50 + (50::rat)\<rfloor> = 50"
  by code_simp


lemma default_crit:
  "py_float_mul (fl (95 / 100)) (Finite 100) = Finite 95"
  "py_float_mul (fl (19 / 20)) (Finite 100) = Finite 95"
  by code_simp+

lemma default_warn:
  "py_float_mul (fl (80 / 100)) (Finite 100) = Finite 80"
  "py_float_mul (fl (4 / 5)) (Finite 100) = Finite 80"
  by code_simp+

lemma generate_alerts_default:
  "generate_alerts u d None =
     (if float_ge u (Finite 95) then
        [\<lparr>severity = ''critical'',
          message = ''Utilization critical ('' @ py_format_1f u @ ''%)'',
          recommendation = ''Immediate action required: Review licensing tier and add capacity''\<rparr>]
      else if float_ge u (Finite 80) then
        [\<lparr>severity = ''warning'',
          message = ''Utilization high ('' @ py_format_1f u @ ''%)'',
          recommendation = ''Audit and right-size your protected infrastructure''\<rparr>]
      else [])
     @
     (if d \<le> 30 then
        [\<lparr>severity = ''warning'',
          message = ''License expiring soon ('' @ py_str_int d @ '' days)'',
          recommendation = ''License renewal action required''\<rparr>]
      else if d \<le> 90 then
        [\<lparr>severity = ''info'',
          message = ''License expiration reminder ('' @ py_str_int d @ '' days)'',
          recommendation = ''Plan license renewal''\<rparr>]
      else [])"
  by (simp add: generate_alerts_def default_thresholds_def default_crit default_warn Let_def)


text \<open>
  C3. With the default thresholds, \<open>generate_alerts\<close> returns the utilization alerts
  followed by the expiry alerts. The utilization alerts are one \<open>critical\<close> alert when
  \<open>utilization_pct \<ge> 95\<close>, else one \<open>warning\<close> alert when \<open>utilization_pct \<ge> 80\<close>, else none,
  whatever \<open>days_to_expiry\<close> is; the expiry alerts are one \<open>warning\<close> alert when
  \<open>days_to_expiry \<le> 30\<close>, else one \<open>info\<close> alert when \<open>days_to_expiry \<le> 90\<close>, else none,
  whatever \<open>utilization_pct\<close> is. So a utilization of 96 gives exactly one utilization
  alert, a \<open>critical\<close> one; 25 days give an expiry \<open>warning\<close>; 200 days give no expiry alert.
\<close>

theorem generate_alerts_default_thresholds:
  "map severity (utilization_alerts (generate_alerts utilization_pct days_to_expiry None)) =
     (if float_ge utilization_pct (Finite 95) then [''critical'']
      else if float_ge utilization_pct (Finite 80) then [''warning'']
      else [])
   \<and> map severity (expiry_alerts (generate_alerts utilization_pct days_to_expiry None)) =
     (if days_to_expiry \<le> 30 then [''warning'']
      else if days_to_expiry \<le> 90 then [''info'']
      else [])
   \<and> generate_alerts utilization_pct days_to_expiry None =
       utilization_alerts (generate_alerts utilization_pct days_to_expiry None)
       @ expiry_alerts (generate_alerts utilization_pct days_to_expiry None)
   \<and> map severity (utilization_alerts (generate_alerts (Finite 96) days_to_expiry None))
       = [''critical'']
   \<and> map severity (expiry_alerts (generate_alerts utilization_pct 25 None)) = [''warning'']
   \<and> expiry_alerts (generate_alerts utilization_pct 200 None) = []"
  by (simp add: generate_alerts_default utilization_alerts_def expiry_alerts_def float_ge_def)

text \<open>
  C5 (as amended). \<open>forecast_runout_date\<close> returns \<open>N/A\<close> when the history is empty, has no
  key \<open>days_7\<close>, or has fewer than 3 samples under it. Otherwise, with \<open>delta\<close> the last
  sample minus the first, it returns \<open>Stable\<close> when \<open>delta = 0\<close> and \<open>Stable (decreasing)\<close>
  when \<open>delta < 0\<close>. When \<open>delta > 0\<close> and \<open>delta / 7\<close> rounds to a finite float
  (\<open>delta < 7 * float_limit\<close>) it returns the date 90 days after today, whatever the
  growth rate is; when \<open>delta / 7\<close> does not round to a finite float, the division that
  computes the rate raises \<open>OverflowError\<close>.
\<close>

theorem forecast_runout_date_cases:
  "forecast_runout_date today strftime [] entitled_vms = Inr ''N/A''
   \<and> (map_of history ''days_7'' = None \<longrightarrow>
        forecast_runout_date today strftime history entitled_vms = Inr ''N/A'')
   \<and> (\<forall>trend. map_of history ''days_7'' = Some trend \<longrightarrow>
        (length trend < 3 \<longrightarrow>
           forecast_runout_date today strftime history entitled_vms = Inr ''N/A'')
      \<and> (3 \<le> length trend \<and> last trend - hd trend = 0 \<longrightarrow>
           forecast_runout_date today strftime history entitled_vms = Inr ''Stable'')
      \<and> (3 \<le> length trend \<and> last trend - hd trend < 0 \<longrightarrow>
           forecast_runout_date today strftime history entitled_vms
             = Inr ''Stable (decreasing)'')
      \<and> (3 \<le> length trend \<and> 0 < last trend - hd trend
           \<and> rat_of_int (last trend - hd trend) < 7 * float_limit \<longrightarrow>
           forecast_runout_date today strftime history entitled_vms
             = Inr (strftime (today + 90)))
      \<and> (3 \<le> length trend \<and> 7 * float_limit \<le> rat_of_int (last trend - hd trend) \<longrightarrow>
           forecast_runout_date today strftime history entitled_vms = Inl OverflowError))"
proof -
  have pos: "forecast_runout_date today strftime history entitled_vms
               = Inr (strftime (today + 90))"
    if "map_of history ''days_7'' = Some trend" "3 \<le> length trend"
      "0 < last trend - hd trend" "rat_of_int (last trend - hd trend) < 7 * float_limit"
    for trend
  proof -
    from truediv_7_pos [OF that(3,4)] obtain r where
      "py_int_truediv (last trend - hd trend) 7 = Inr (Finite r)" "0 < r"
      by blast
    then show ?thesis
      using that by (auto simp: forecast_runout_date_def Let_def)
  qed
  have big: "forecast_runout_date today strftime history entitled_vms = Inl OverflowError"
    if "map_of history ''days_7'' = Some trend" "3 \<le> length trend"
      "7 * float_limit \<le> rat_of_int (last trend - hd trend)"
    for trend
  proof -
    have "0 < 7 * float_limit" using float_limit_gt_one by linarith
    with that(3) have "0 < rat_of_int (last trend - hd trend)" by linarith
    then have d: "0 < last trend - hd trend" by (simp only: of_int_0_less_iff)
    from truediv_7_overflow [OF that(3)] show ?thesis
      using that(1,2) d by (auto simp: forecast_runout_date_def Let_def)
  qed
  show ?thesis
    using pos big by (auto simp: forecast_runout_date_def Let_def)
qed

theorem forecast_runout_date_cases_witness:
  "forecast_runout_date 739923 py_str_int [(''days_30'', [1, 2, 3])] 500 = Inr ''N/A''
   \<and> forecast_runout_date 739923 py_str_int [(''days_7'', [400, 410])] 500 = Inr ''N/A''
   \<and> forecast_runout_date 739923 py_str_int [(''days_7'', [400, 410, 400])] 500 = Inr ''Stable''
   \<and> forecast_runout_date 739923 py_str_int [(''days_7'', [400, 410, 390])] 500
       = Inr ''Stable (decreasing)''
   \<and> rat_of_int (last [400, 410, 412] - hd [400, 410, 412]) < 7 * float_limit
   \<and> forecast_runout_date 739923 py_str_int [(''days_7'', [400, 410, 412])] 500
       = Inr (py_str_int (739923 + 90))"
proof -
  have small: "rat_of_int (last [400, 410, 412] - hd [400, 410, 412]) < 7 * float_limit"
    using float_limit_ge pow2_mono [of 1 1023] by (simp add: pow2_def)
  from forecast_runout_date_cases [of 739923 py_str_int 500 "[(''days_30'', [1, 2, 3])]"]
  have a: "forecast_runout_date 739923 py_str_int [(''days_30'', [1, 2, 3])] 500 = Inr ''N/A''"
    by simp
  from forecast_runout_date_cases [of 739923 py_str_int 500 "[(''days_7'', [400, 410])]"]
  have b: "forecast_runout_date 739923 py_str_int [(''days_7'', [400, 410])] 500 = Inr ''N/A''"
    by simp
  from forecast_runout_date_cases [of 739923 py_str_int 500 "[(''days_7'', [400, 410, 400])]"]
  have c: "forecast_runout_date 739923 py_str_int [(''days_7'', [400, 410, 400])] 500
             = Inr ''Stable''"
    by simp
  from forecast_runout_date_cases [of 739923 py_str_int 500 "[(''days_7'', [400, 410, 390])]"]
  have d: "forecast_runout_date 739923 py_str_int [(''days_7'', [400, 410, 390])] 500
             = Inr ''Stable (decreasing)''"
    by simp
  from forecast_runout_date_cases [of 739923 py_str_int 500 "[(''days_7'', [400, 410, 412])]"]
    small
  have e: "forecast_runout_date 739923 py_str_int [(''days_7'', [400, 410, 412])] 500
             = Inr (py_str_int (739923 + 90))"
    by simp
  from a b c d small e show ?thesis
    by simp
qed

text \<open>
  C5 as stated fails for a growth that is too large for a float: with the samples
  \<open>[0, 0, 7 * 2 ** 1024]\<close> the difference is positive, and \<open>rate = delta / days_in_period\<close>
  raises \<open>OverflowError\<close> (integer division result too large for a float), so no date is
  returned. (The calendar function does not matter here; \<open>py_str_int\<close> stands for it.)
\<close>

theorem forecast_runout_date_overflow_counterexample:
  "length [0, 0, 7 * 2 ^ 1024 :: int] = 3
   \<and> 0 < last [0, 0, 7 * 2 ^ 1024 :: int] - hd [0, 0, 7 * 2 ^ 1024 :: int]
   \<and> forecast_runout_date 739923 py_str_int [(''days_7'', [0, 0, 7 * 2 ^ 1024])] 500
       = Inl OverflowError"
proof -
  have "py_int_truediv (7 * 2 ^ 1024) 7 = Inl OverflowError"
    by (rule truediv_overflow) simp
  then show ?thesis
    by (simp add: forecast_runout_date_def Let_def)
qed

text \<open>
  C10. The result of \<open>forecast_runout_date\<close> (a returned text or a raised error) is the
  same for any two values of \<open>entitled_vms\<close>: the argument is never read.
\<close>

theorem forecast_runout_date_ignores_entitled_vms:
  "forecast_runout_date today strftime history e1
     = forecast_runout_date today strftime history e2"
  by (simp add: forecast_runout_date_def)


section \<open>Properties of the configuration loader\<close>

lemma expand_env_vars_no_token: "\<not> has_token s \<Longrightarrow> expand_env_vars env s = s"
  by (induction s) (auto simp: match_at_def Let_def)

lemma expand_env_vars_token:
  assumes "valid_name n"
  shows "expand_env_vars env (token n @ post) = replace_var env n @ expand_env_vars env post"
proof -
  have closing: "CHR ''}'' \<notin> set n"
    using assms by (simp add: valid_name_def)
  have tw: "takeWhile (\<lambda>x. x \<noteq> CHR ''}'') (n @ CHR ''}'' # post) = n"
    using closing by (induction n) auto
  have dw: "dropWhile (\<lambda>x. x \<noteq> CHR ''}'') (n @ CHR ''}'' # post) = CHR ''}'' # post"
    using closing by (induction n) auto
  show ?thesis
    using assms by (simp add: token_def tw dw valid_name_def)
qed

lemma expand_env_vars_inert_token:
  assumes "inert pre" "valid_name n"
  shows "expand_env_vars env (pre @ token n @ post) =
         pre @ replace_var env n @ expand_env_vars env post"
  using assms
proof (induction pre rule: inert.induct)
  case (1 a b cs)
  show ?case
  proof (cases "a = CHR ''$'' \<and> b = CHR ''{''")
    case True
    with 1 obtain cs' where cs: "cs = CHR ''}'' # cs'" by (cases cs) auto
    have "expand_env_vars env ((a # b # cs) @ token n @ post)
            = a # expand_env_vars env ((b # cs) @ token n @ post)"
      using True cs by simp
    then show ?thesis using 1 by simp
  next
    case False
    then have "expand_env_vars env ((a # b # cs) @ token n @ post)
            = a # expand_env_vars env ((b # cs) @ token n @ post)"
      by auto
    then show ?thesis using 1 by simp
  qed
next
  case (2 a)
  have "expand_env_vars env (a # token n @ post) = a # expand_env_vars env (token n @ post)"
    by (simp add: token_def)
  then show ?case using 2 by (simp add: expand_env_vars_token)
next
  case 3
  then show ?case by (simp add: expand_env_vars_token)
qed

lemma match_at_decompose:
  assumes "match_at s"
  shows "\<exists>n rest. s = token n @ rest \<and> valid_name n"
proof -
  from assms obtain cs where s: "s = CHR ''$'' # CHR ''{'' # cs"
    and n: "takeWhile (\<lambda>x. x \<noteq> CHR ''}'') cs \<noteq> []"
    and r: "dropWhile (\<lambda>x. x \<noteq> CHR ''}'') cs \<noteq> []"
    by (auto simp: match_at_def split: list.splits) (metis list.collapse)
  let ?n = "takeWhile (\<lambda>x. x \<noteq> CHR ''}'') cs"
  let ?r = "dropWhile (\<lambda>x. x \<noteq> CHR ''}'') cs"
  have "hd ?r = CHR ''}''" using r hd_dropWhile [of "\<lambda>x. x \<noteq> CHR ''}''" cs] by auto
  then have "?r = CHR ''}'' # tl ?r" using r by (metis list.collapse)
  then have "cs = ?n @ CHR ''}'' # tl ?r" by (metis takeWhile_dropWhile_id)
  moreover have "CHR ''}'' \<notin> set ?n" using set_takeWhileD by fastforce
  ultimately show ?thesis
    using s n
    by (intro exI [of _ ?n] exI [of _ "tl ?r"]) (simp add: token_def valid_name_def)
qed

lemma first_token:
  assumes "has_token s"
  shows "\<exists>pre n rest. s = pre @ token n @ rest \<and> inert pre \<and> valid_name n"
  using assms
proof (induction s)
  case Nil
  then show ?case by simp
next
  case (Cons c cs)
  show ?case
  proof (cases "match_at (c # cs)")
    case True
    from match_at_decompose [OF this] obtain n rest where
      "c # cs = token n @ rest" "valid_name n" by blast
    then have "c # cs = [] @ token n @ rest \<and> inert [] \<and> valid_name n" by simp
    then show ?thesis by blast
  next
    case False
    with Cons.prems have "has_token cs" by simp
    from Cons.IH [OF this] obtain pre n rest where
      cs: "cs = pre @ token n @ rest" and i: "inert pre" and v: "valid_name n" by blast
    have closing: "dropWhile (\<lambda>x. x \<noteq> CHR ''}'') (xs @ token n @ rest) \<noteq> []" for xs
      by (simp add: token_def)
    have "inert (c # pre)"
    proof (cases pre)
      case Nil
      then show ?thesis by simp
    next
      case (Cons b pre')
      show ?thesis
      proof (cases "c = CHR ''$'' \<and> b = CHR ''{''")
        case dollar_brace: True
        have "takeWhile (\<lambda>x. x \<noteq> CHR ''}'') (pre' @ token n @ rest) = []"
          using False dollar_brace cs Cons closing [of pre']
          by (simp add: match_at_def del: dropWhile_eq_Nil_conv)
        then have "pre' \<noteq> [] \<and> hd pre' = CHR ''}''"
          by (cases pre') (auto simp: token_def split: if_splits)
        then show ?thesis using dollar_brace Cons i by simp
      next
        case False
        then show ?thesis using Cons i by auto
      qed
    qed
    then have "c # cs = (c # pre) @ token n @ rest \<and> inert (c # pre) \<and> valid_name n"
      using cs v by simp
    then show ?thesis by blast
  qed
qed

lemma every_text_has_layout:
  "\<exists>ps tail. s = source_text ps tail
      \<and> (\<forall>(pre, n) \<in> set ps. inert pre \<and> valid_name n) \<and> \<not> has_token tail"
proof (induction "length s" arbitrary: s rule: less_induct)
  case less
  show ?case
  proof (cases "has_token s")
    case False
    then have "s = source_text [] s \<and> (\<forall>(pre, n) \<in> set []. inert pre \<and> valid_name n)
                 \<and> \<not> has_token s" by simp
    then show ?thesis by blast
  next
    case True
    from first_token [OF this] obtain pre n rest where
      s: "s = pre @ token n @ rest" and i: "inert pre" and v: "valid_name n" by blast
    have "length rest < length s" by (simp add: s token_def)
    from less [OF this] obtain ps tail where
      r: "rest = source_text ps tail"
      and ok: "\<forall>(pre, n) \<in> set ps. inert pre \<and> valid_name n" and t: "\<not> has_token tail"
      by blast
    have "s = source_text ((pre, n) # ps) tail
           \<and> (\<forall>(pre, n) \<in> set ((pre, n) # ps). inert pre \<and> valid_name n) \<and> \<not> has_token tail"
      using s r ok t i v by simp
    then show ?thesis by blast
  qed
qed

text \<open>
  C7. Every text is a sequence of inert pieces, each followed by a token \<open>${NAME}\<close> with a
  valid name, and a last piece in which the pattern does not match. Whatever the
  environment is, the expansion of such a text copies the pieces, replaces every token
  whose name is set in the environment by the value of the variable, and leaves every
  token whose name is not set as it is. The witness is the text \<open>${FOO}\<close>: with
  \<open>FOO = bar\<close> it expands to \<open>bar\<close>, with \<open>FOO\<close> unset it stays \<open>${FOO}\<close>.
\<close>

theorem expand_env_vars_replaces_tokens:
  "(\<exists>ps tail. content = source_text ps tail
       \<and> (\<forall>(pre, n) \<in> set ps. inert pre \<and> valid_name n) \<and> \<not> has_token tail)
   \<and> ((\<forall>(pre, n) \<in> set ps. inert pre \<and> valid_name n) \<and> \<not> has_token tail \<longrightarrow>
        expand_env_vars env (source_text ps tail) = expanded_text env ps tail
        \<and> expanded_text env ps tail =
            concat (map (\<lambda>(pre, n). pre @ (case env n of Some v \<Rightarrow> v | None \<Rightarrow> token n)) ps)
            @ tail)"
proof (intro conjI impI)
  show "\<exists>ps tail. content = source_text ps tail
          \<and> (\<forall>(pre, n) \<in> set ps. inert pre \<and> valid_name n) \<and> \<not> has_token tail"
    by (rule every_text_has_layout)
next
  assume "(\<forall>(pre, n) \<in> set ps. inert pre \<and> valid_name n) \<and> \<not> has_token tail"
  then show "expand_env_vars env (source_text ps tail) = expanded_text env ps tail"
    by (induction ps) (auto simp: expand_env_vars_no_token expand_env_vars_inert_token)
next
  show "expanded_text env ps tail =
          concat (map (\<lambda>(pre, n). pre @ (case env n of Some v \<Rightarrow> v | None \<Rightarrow> token n)) ps)
          @ tail"
    by (induction ps) (auto simp: replace_var_def token_def split: option.splits)
qed

theorem expand_env_vars_replaces_tokens_witness:
  "expand_env_vars [''FOO'' \<mapsto> ''bar''] ''${FOO}'' = ''bar''
   \<and> expand_env_vars Map.empty ''${FOO}'' = ''${FOO}''"
proof -
  have ok: "(\<forall>(pre, n) \<in> set [([], ''FOO'')]. inert pre \<and> valid_name n) \<and> \<not> has_token []"
    by (simp add: valid_name_def)
  have set: "expand_env_vars [''FOO'' \<mapsto> ''bar''] (source_text [([], ''FOO'')] []) =
             expanded_text [''FOO'' \<mapsto> ''bar''] [([], ''FOO'')] []"
    using expand_env_vars_replaces_tokens [of "[]" "[([], ''FOO'')]" "[]"] ok by blast
  have unset: "expand_env_vars Map.empty (source_text [([], ''FOO'')] []) =
               expanded_text Map.empty [([], ''FOO'')] []"
    using expand_env_vars_replaces_tokens [of "[]" "[([], ''FOO'')]" "[]"] ok by blast
  from set unset show ?thesis
    by (simp add: token_def replace_var_def)
qed

text \<open>
  On a configuration that is a mapping whose \<open>auth\<close>, when present, is a mapping too,
  \<open>_validate\<close> does what its docstring says: it passes exactly when the four required
  fields are present and \<open>auth.version\<close> is one of the two literals, and raises
  \<open>ValueError\<close> otherwise; \<open>load\<close> then returns the parsed configuration.
\<close>

lemma check_required_mapping:
  "check_required fs (PDict d) =
     (case find (\<lambda>f. PStr f \<notin> fst ` set d) fs of
        Some f \<Rightarrow> Inl (ValueError (MissingConfigField f))
      | None \<Rightarrow> Inr ())"
  by (induction fs) auto

lemma validate_mapping:
  assumes "\<forall>v. map_of d (PStr ''auth'') = Some v \<longrightarrow> (\<exists>a. v = PDict a)"
  shows "(validate (PDict d) = Inr () \<longleftrightarrow>
            (\<forall>f \<in> set required_fields. PStr f \<in> fst ` set d)
            \<and> (\<exists>a v. map_of d (PStr ''auth'') = Some (PDict a)
                  \<and> map_of a (PStr ''version'') = Some v
                  \<and> (v = PStr ''10.x'' \<or> v = PStr ''pre-10'')))
         \<and> (validate (PDict d) = Inr () \<or> (\<exists>e. validate (PDict d) = Inl (ValueError e)))"
proof (cases "map_of d (PStr ''auth'')")
  case None
  then have "PStr ''auth'' \<notin> fst ` set d"
    by (simp add: map_of_eq_None_iff)
  then show ?thesis
    using None
    by (auto simp: validate_def check_required_mapping required_fields_def)
next
  case (Some v)
  with assms obtain a where a: "v = PDict a" by blast
  have "d \<noteq> []" using Some by auto
  then show ?thesis
    using Some a
    by (auto simp: validate_def check_required_mapping required_fields_def
             split: option.splits)
qed


lemma load_returns_valid_config:
  assumes "files config_path = Some content"
    and "safe_load (expand_env_vars env content) = Inr cfg"
    and "validate cfg = Inr ()"
  shows "load safe_load files env self config_path = (Inr cfg, self\<lparr>config := cfg\<rparr>)"
  using assms by (simp add: load_def)

text \<open>
  C8. The configuration \<open>{zvm_url: https://zvm, auth: 10.x, verify_tls: true,
  output_dir: out}\<close> has all four required fields and no recognised \<open>auth.version\<close>
  (its \<open>auth\<close> is a string, not a mapping). \<open>_validate\<close> does not raise the \<open>ValueError\<close>
  of an invalid configuration there: \<open>self.config.get("auth", {}).get("version")\<close> raises
  \<open>AttributeError\<close>, and \<open>load\<close> passes it on.
\<close>

theorem validate_auth_not_a_mapping:
  "validate (PDict [(PStr ''zvm_url'', PStr ''https://zvm''), (PStr ''auth'', PStr ''10.x''),
                    (PStr ''verify_tls'', PBool True), (PStr ''output_dir'', PStr ''out'')])
     = Inl AttributeError
   \<and> fst (load (\<lambda>text. Inr (PDict [(PStr ''zvm_url'', PStr ''https://zvm''),
                                  (PStr ''auth'', PStr ''10.x''),
                                  (PStr ''verify_tls'', PBool True),
                                  (PStr ''output_dir'', PStr ''out'')]))
              [''config.yaml'' \<mapsto> ''zvm_url: https://zvm'']
              Map.empty \<lparr>config = PNone\<rparr> ''config.yaml'')
     = Inl AttributeError"
  by (simp add: validate_def load_def required_fields_def)


section \<open>Properties of the report generator\<close>

lemma generate_json_writes:
  assumes "can_open (joinpath (output_dir self) ''licensing_utilization.json'')"
  shows "\<exists>reports'. generate_json joinpath can_open now_iso reports self license_data
            consumption_data metrics history tls_verified zerto_version tool_version
          = Inr (joinpath (output_dir self) ''licensing_utilization.json'', reports')"
  using assms by (simp add: generate_json_def Let_def)

text \<open>
  C6. Whenever \<open>generate_json\<close> writes a report, the member \<open>zvm_url\<close> of the \<open>meta\<close> block
  of the written document is the string \<open>[REDACTED]\<close>, whatever the arguments are; so
  the field is the same in the reports of any two runs, in particular of two runs whose
  data differ in a manager URL.
\<close>

theorem generate_json_redacts_zvm_url:
  assumes "generate_json joinpath can_open now_iso reports self license_data consumption_data
             metrics history tls_verified zerto_version tool_version = Inr (path, reports')"
    and "generate_json joinpath2 can_open2 now_iso2 reports2 self2 license_data2
             consumption_data2 metrics2 history2 tls_verified2 zerto_version2 tool_version2
           = Inr (path2, reports2')"
  shows "written_zvm_url reports' path = Some (PStr ''[REDACTED]'')
         \<and> written_zvm_url reports2' path2 = written_zvm_url reports' path"
proof -
  have one: "written_zvm_url r p = Some (PStr ''[REDACTED]'')"
    if "generate_json j c n rs s l cd m h t z v = Inr (p, r)"
    for j c n rs s l cd m h t z v p r
    using that
    by (auto simp: generate_json_def written_zvm_url_def Let_def split: if_splits)
  from one [OF assms(1)] one [OF assms(2)] show ?thesis
    by simp
qed

theorem generate_json_redacts_zvm_url_witness:
  "generate_json (\<lambda>d f. d @ ''/'' @ f) (\<lambda>p. True) ''2026-01-01T00:00:00'' Map.empty
      \<lparr>output_dir = ''out''\<rparr> (PDict [(PStr ''zvm_url'', PStr ''https://zvm-a.example'')])
      (PDict []) (PDict []) (PDict []) True ''Unknown'' ''1.0.0''
     \<noteq> Inl OSError
   \<and> written_zvm_url
       (snd (projr (generate_json (\<lambda>d f. d @ ''/'' @ f) (\<lambda>p. True) ''2026-01-01T00:00:00''
          Map.empty \<lparr>output_dir = ''out''\<rparr>
          (PDict [(PStr ''zvm_url'', PStr ''https://zvm-a.example'')])
          (PDict []) (PDict []) (PDict []) True ''Unknown'' ''1.0.0'')))
       ''out/licensing_utilization.json''
     = Some (PStr ''[REDACTED]'')
   \<and> written_zvm_url
       (snd (projr (generate_json (\<lambda>d f. d @ ''/'' @ f) (\<lambda>p. True) ''2026-01-01T00:00:00''
          Map.empty \<lparr>output_dir = ''out''\<rparr>
          (PDict [(PStr ''zvm_url'', PStr ''https://zvm-b.example'')])
          (PDict []) (PDict []) (PDict []) True ''Unknown'' ''1.0.0'')))
       ''out/licensing_utilization.json''
     = Some (PStr ''[REDACTED]'')"
proof -
  let ?run = "\<lambda>url. generate_json (\<lambda>d f. d @ ''/'' @ f) (\<lambda>p. True) ''2026-01-01T00:00:00''
      Map.empty \<lparr>output_dir = ''out''\<rparr> (PDict [(PStr ''zvm_url'', PStr url)])
      (PDict []) (PDict []) (PDict []) True ''Unknown'' ''1.0.0''"
  have a: "?run ''https://zvm-a.example'' =
      Inr (''out/licensing_utilization.json'', snd (projr (?run ''https://zvm-a.example'')))"
    by (simp add: generate_json_def Let_def)
  have b: "?run ''https://zvm-b.example'' =
      Inr (''out/licensing_utilization.json'', snd (projr (?run ''https://zvm-b.example'')))"
    by (simp add: generate_json_def Let_def)
  have "?run ''https://zvm-a.example'' \<noteq> Inl OSError"
    by (simp add: generate_json_def Let_def)
  with generate_json_redacts_zvm_url [OF a b] show ?thesis
    by simp
qed

end
